theory Spec2Isabelle
  imports Main "HOL-Library.Word"
begin

unbundle bit_operations_syntax

section \<open>CopyOnWrite: a shallow embedding of \<^verbatim>\<open>copy_on_write.hpp\<close>\<close>

text \<open>
  The header implements a single-slot container: readers take a reference-counted
  handle to the current snapshot, writers build a replacement under a mutex and publish
  it with one atomic exchange.

  The embedding is the sequential semantics of the header: one thread runs the public
  operations, one after the other, and callbacks (modifiers and verifiers) may call
  back into the container. Every atomic operation is then an ordinary read or write.
  The free store is a map from addresses to \<^verbatim>\<open>Internal\<close> objects; a pointer is a
  64-bit word and \<open>0\<close> is \<^verbatim>\<open>nullptr\<close>.
\<close>

subsection \<open>Data model\<close>

text \<open>
  \<^verbatim>\<open>struct Internal { mutable std::atomic_size_t refcount = 1; T instance; }\<close>.
  The field \<^verbatim>\<open>instance\<close> is spelled \<open>instance_T\<close>, the plain name being reserved.
\<close>

record 'a Internal =
  refcount :: "64 word"
  instance_T :: 'a

text \<open>
  The members of \<^verbatim>\<open>CopyOnWrite<T>\<close>, together with the free store that holds the
  \<^verbatim>\<open>Internal\<close> objects its pointers refer to. \<open>editMutex\<close> is \<open>True\<close> while the
  mutex is held.
\<close>

record 'a CopyOnWrite =
  store :: "64 word \<rightharpoonup> 'a Internal"
  addressAndCopyCounter :: "64 word"
  previousCopyCounter :: "32 word"
  editMutex :: bool

text \<open>\<^verbatim>\<open>class CopyOnWriteStateReference { const Internal* instance = nullptr; }\<close>\<close>

record CopyOnWriteStateReference =
  instance_ptr :: "64 word"

text \<open>
  What can go wrong in a call: user code (the constructor or copy constructor of
  \<^verbatim>\<open>T\<close>, a modifier, a verifier) throws an exception, identified by a number; or the
  code dereferences a null pointer, or a pointer to an object that is not live, which is
  undefined behaviour in C++.
\<close>

datatype error = Exception nat | NullDereference | InvalidPointer

text \<open>
  A call on the container takes the state and either never returns (\<open>None\<close>: a
  blocking lock on a mutex that is already held, or a busy wait that nobody ends) or
  comes back with a result or an error, and the state it left.
\<close>

type_synonym ('a, 'r) call = "'a CopyOnWrite \<Rightarrow> ((error + 'r) \<times> 'a CopyOnWrite) option"

definition increment :: "64 word" where
  "increment = 0x0001000000000000"

definition prefix :: "64 word" where
  "prefix = 0xffff000000000000"

definition suffix :: "64 word" where
  "suffix = 0x0000ffffffffffff"

subsection \<open>Pointer decoding and release\<close>

definition getPointer :: "64 word \<Rightarrow> 64 word" where
  "getPointer value =
     (if value AND 0x0000800000000000 \<noteq> 0 then value OR prefix else value AND suffix)"

text \<open>
  \<^verbatim>\<open>--pointer->refcount\<close> followed by \<^verbatim>\<open>delete\<close> at zero. The decrement wraps, as
  an unsigned atomic does.
\<close>

definition getRidOfPointer :: "64 word \<Rightarrow> 'a CopyOnWrite \<Rightarrow> error + 'a CopyOnWrite" where
  "getRidOfPointer pointer s =
     (if pointer = 0 then Inl NullDereference
      else case store s pointer of
        None \<Rightarrow> Inl InvalidPointer
      | Some obj \<Rightarrow>
          (let refcountLeft = refcount obj - 1 in
           if refcountLeft = 0 then Inr (s\<lparr>store := (store s)(pointer := None)\<rparr>)
           else Inr (s\<lparr>store := (store s)(pointer \<mapsto> obj\<lparr>refcount := refcountLeft\<rparr>)\<rparr>)))"

subsection \<open>Reader acquisition\<close>

text \<open>
  The first loop of \<^verbatim>\<open>safeInstance\<close>:
  \<^verbatim>\<open>do { newValue = value + increment; } while (!compare_exchange_weak(value, newValue))\<close>.
  The exchange succeeds when the slot still holds \<open>value\<close>; otherwise it reloads
  \<open>value\<close> from the slot and the loop goes round again. (A spurious failure of the
  weak exchange repeats the iteration with the same values and is left out.) The
  function returns the \<open>value\<close> the exchange succeeded on.
\<close>

function incrementCopyCounter :: "64 word \<Rightarrow> 'a CopyOnWrite \<Rightarrow> 64 word \<times> 'a CopyOnWrite" where
  "incrementCopyCounter value s =
     (if addressAndCopyCounter s = value
      then (value, s\<lparr>addressAndCopyCounter := value + increment\<rparr>)
      else incrementCopyCounter (addressAndCopyCounter s) s)"
  by pat_completeness auto
termination
  by (relation "measure (\<lambda>(value, s). if addressAndCopyCounter s = value then 0 else 1)") auto

text \<open>
  The second loop: if the slot's address differs from the one observed, the reader
  decrements \<open>previousCopyCounter\<close> and leaves; otherwise it takes its increment back
  with a compare-exchange.
\<close>

function decrementCopyCounter :: "64 word \<Rightarrow> 64 word \<Rightarrow> 'a CopyOnWrite \<Rightarrow> 'a CopyOnWrite" where
  "decrementCopyCounter value decrementee s =
     (if decrementee AND suffix \<noteq> value AND suffix
      then s\<lparr>previousCopyCounter := previousCopyCounter s - 1\<rparr>
      else if addressAndCopyCounter s = decrementee
      then s\<lparr>addressAndCopyCounter := decrementee - increment\<rparr>
      else decrementCopyCounter value (addressAndCopyCounter s) s)"
  by pat_completeness auto
termination
  by (relation "measure (\<lambda>(value, decrementee, s). if addressAndCopyCounter s = decrementee then 0 else 1)")
     auto

definition safeInstance :: "'a CopyOnWrite \<Rightarrow> error + (64 word \<times> 'a CopyOnWrite)" where
  "safeInstance s =
     (case incrementCopyCounter (addressAndCopyCounter s) s of (value, s1) \<Rightarrow>
        (let obtained = getPointer value in
         if obtained = 0 then Inl NullDereference
         else case store s1 obtained of
           None \<Rightarrow> Inl InvalidPointer
         | Some obj \<Rightarrow>
             (let s2 = s1\<lparr>store := (store s1)(obtained \<mapsto> obj\<lparr>refcount := refcount obj + 1\<rparr>)\<rparr>;
                  s3 = decrementCopyCounter value (addressAndCopyCounter s2) s2
              in Inr (obtained, s3))))"

subsection \<open>Publishing a replacement\<close>

text \<open>
  \<^verbatim>\<open>do {} while (previousCopyCounter.load() != 0)\<close>: with one thread, nothing changes
  the counter while the loop runs.
\<close>

partial_function (option) busyWait :: "'a CopyOnWrite \<Rightarrow> 'a CopyOnWrite option" where
  "busyWait s = (if previousCopyCounter s \<noteq> 0 then busyWait s else Some s)"

declare busyWait.simps [code]

text \<open>
  \<^verbatim>\<open>replace(creator, verifier)\<close>, called with the mutex held. A creator is a lambda
  that either takes the old payload or takes nothing; \<^verbatim>\<open>if constexpr\<close> selects the
  call, and only the first kind reads the old payload again. It returns the pointer to
  the replacement (\<open>0\<close> for \<^verbatim>\<open>nullptr\<close>).
  \<^verbatim>\<open>previousCopyCounter += abandoned\<close> converts the 16-bit count to \<^verbatim>\<open>int\<close>.
\<close>

datatype 'a Creator =
    TakesOld "'a \<Rightarrow> ('a, 64 word) call"
  | TakesNothing "('a, 64 word) call"

definition replace :: "'a Creator \<Rightarrow> ('a \<Rightarrow> ('a, bool) call) \<Rightarrow> ('a, bool) call" where
  "replace creator verifier s =
     (let original = getPointer (addressAndCopyCounter s) in
      if original = 0 then Some (Inl NullDereference, s)
      else
        (case store s original of
           None \<Rightarrow> Some (Inl InvalidPointer, s)
         | Some obj \<Rightarrow>
             (case verifier (instance_T obj) s of
                None \<Rightarrow> None
              | Some (Inl e, s1) \<Rightarrow> Some (Inl e, s1)
              | Some (Inr accepted, s1) \<Rightarrow>
                  if \<not> accepted then Some (Inr False, s1)
                  else
                    (case (case creator of
                             TakesOld c \<Rightarrow>
                               (case store s1 original of
                                  None \<Rightarrow> Some (Inl InvalidPointer, s1)
                                | Some obj1 \<Rightarrow> c (instance_T obj1) s1)
                           | TakesNothing c \<Rightarrow> c s1) of
                       None \<Rightarrow> None
                     | Some (Inl e, s2) \<Rightarrow> Some (Inl e, s2)
                     | Some (Inr replacement, s2) \<Rightarrow>
                         if replacement = 0 then Some (Inr False, s2)
                         else
                           (let oldValue = addressAndCopyCounter s2;
                                s3 = s2\<lparr>addressAndCopyCounter := replacement\<rparr>;
                                abandoned = drop_bit 48 oldValue;
                                s4 = s3\<lparr>previousCopyCounter :=
                                       previousCopyCounter s3 + ucast abandoned\<rparr>
                            in (case busyWait s4 of
                                  None \<Rightarrow> None
                                | Some s5 \<Rightarrow>
                                    (case getRidOfPointer original s5 of
                                       Inl e \<Rightarrow> Some (Inl e, s5)
                                     | Inr s6 \<Rightarrow> Some (Inr True, s6))))))))"

subsection \<open>Building the replacement\<close>

text \<open>
  \<^verbatim>\<open>new Internal(args...)\<close>: the allocator hands out the address \<open>fresh\<close>, the
  payload is built there by a constructor of \<^verbatim>\<open>T\<close>, and the count starts at 1. When
  the constructor throws (\<open>built = Inl e\<close>), the new-expression gives the memory back and
  the exception leaves. The address the allocator returns is an argument of every
  operation that allocates.
\<close>

definition new_Internal :: "64 word \<Rightarrow> error + 'a \<Rightarrow> ('a, 64 word) call" where
  "new_Internal fresh built s =
     (case built of
        Inl e \<Rightarrow> Some (Inl e, s)
      | Inr x \<Rightarrow> Some (Inr fresh, s\<lparr>store := (store s)(fresh \<mapsto> \<lparr>refcount = 1, instance_T = x\<rparr>)\<rparr>))"

text \<open>\<^verbatim>\<open>struct DuplicateHolder\<close>: its destructor deletes a duplicate that was not taken.\<close>

record DuplicateHolder =
  duplicate :: "64 word"

definition DuplicateHolder_destructor :: "DuplicateHolder \<Rightarrow> 'a CopyOnWrite \<Rightarrow> 'a CopyOnWrite" where
  "DuplicateHolder_destructor h s =
     (if duplicate h \<noteq> 0 then s\<lparr>store := (store s)(duplicate h := None)\<rparr> else s)"

definition DuplicateHolder_take :: "DuplicateHolder \<Rightarrow> 64 word \<times> DuplicateHolder" where
  "DuplicateHolder_take h = (let taken = duplicate h in (taken, h\<lparr>duplicate := 0\<rparr>))"

text \<open>
  The body shared by the two lambdas of \<^verbatim>\<open>replaceWithModifiedCopy\<close> and
  \<^verbatim>\<open>replaceWithNew\<close>:
  \<^verbatim>\<open>DuplicateHolder duplicateHolder = { new Internal(...) };
  modifier(duplicateHolder.duplicate->instance); return duplicateHolder.take();\<close>
  The modifier works on the payload of the duplicate through a reference: it is given
  the payload and the state and returns the payload as it leaves it, which is written
  to the duplicate. When the modifier throws, the holder's destructor runs.
\<close>

definition modifiedDuplicate ::
  "64 word \<Rightarrow> error + 'a \<Rightarrow> ('a \<Rightarrow> ('a, 'a) call) \<Rightarrow> ('a, 64 word) call" where
  "modifiedDuplicate fresh built modifier s =
     (case new_Internal fresh built s of
        None \<Rightarrow> None
      | Some (Inl e, s1) \<Rightarrow> Some (Inl e, s1)
      | Some (Inr p, s1) \<Rightarrow>
          (let duplicateHolder = \<lparr>duplicate = p\<rparr> in
           case store s1 (duplicate duplicateHolder) of
             None \<Rightarrow> Some (Inl InvalidPointer, s1)
           | Some d \<Rightarrow>
               (case modifier (instance_T d) s1 of
                  None \<Rightarrow> None
                | Some (Inl e, s2) \<Rightarrow> Some (Inl e, DuplicateHolder_destructor duplicateHolder s2)
                | Some (Inr x', s2) \<Rightarrow>
                    (case store s2 (duplicate duplicateHolder) of
                       None \<Rightarrow> Some (Inl InvalidPointer, s2)
                     | Some d2 \<Rightarrow>
                         (let s3 = s2\<lparr>store := (store s2)(duplicate duplicateHolder \<mapsto>
                                        d2\<lparr>instance_T := x'\<rparr>)\<rparr>
                          in (case DuplicateHolder_take duplicateHolder of (taken, emptied) \<Rightarrow>
                                Some (Inr taken, DuplicateHolder_destructor emptied s3)))))))"

text \<open>
  \<open>copy\<close> is the copy constructor of \<^verbatim>\<open>T\<close> and \<open>construct\<close> its constructor from
  the arguments of the call; both may throw.
\<close>

definition replaceWithModifiedCopy ::
  "64 word \<Rightarrow> ('a \<Rightarrow> error + 'a) \<Rightarrow> ('a \<Rightarrow> ('a, 'a) call) \<Rightarrow> ('a \<Rightarrow> ('a, bool) call)
     \<Rightarrow> ('a, bool) call" where
  "replaceWithModifiedCopy fresh copy modifier verifier =
     replace (TakesOld (\<lambda>old. modifiedDuplicate fresh (copy old) modifier)) verifier"

definition replaceWithNew ::
  "64 word \<Rightarrow> ('args \<Rightarrow> error + 'a) \<Rightarrow> ('a \<Rightarrow> ('a, 'a) call) \<Rightarrow> ('a \<Rightarrow> ('a, bool) call)
     \<Rightarrow> 'args \<Rightarrow> ('a, bool) call" where
  "replaceWithNew fresh construct modifier verifier constructorArgs =
     replace (TakesNothing (modifiedDuplicate fresh (construct constructorArgs) modifier)) verifier"

subsection \<open>Construction and destruction of the container\<close>

text \<open>
  The constructor allocates the first snapshot in the free store \<open>h\<close> it finds and
  stores its address in the slot.
\<close>

definition CopyOnWrite_constructor ::
  "64 word \<Rightarrow> ('args \<Rightarrow> error + 'a) \<Rightarrow> 'args \<Rightarrow> (64 word \<rightharpoonup> 'a Internal) \<Rightarrow> error + 'a CopyOnWrite" where
  "CopyOnWrite_constructor fresh construct args h =
     (case construct args of
        Inl e \<Rightarrow> Inl e
      | Inr x \<Rightarrow>
          Inr \<lparr>store = h(fresh \<mapsto> \<lparr>refcount = 1, instance_T = x\<rparr>),
               addressAndCopyCounter = fresh, previousCopyCounter = 0, editMutex = False\<rparr>)"

definition CopyOnWrite_destructor :: "'a CopyOnWrite \<Rightarrow> error + 'a CopyOnWrite" where
  "CopyOnWrite_destructor s =
     (case safeInstance s of
        Inl e \<Rightarrow> Inl e
      | Inr (lastReferenced, s1) \<Rightarrow>
          (case getRidOfPointer lastReferenced s1 of
             Inl e \<Rightarrow> Inl e
           | Inr s2 \<Rightarrow> getRidOfPointer lastReferenced s2))"

subsection \<open>The reference handle\<close>

text \<open>
  The copy constructor increments the count through the copied pointer without
  looking at it first; the move constructor, the destructor and the assignments test the
  pointer.
\<close>

definition CopyOnWriteStateReference_copy ::
  "CopyOnWriteStateReference \<Rightarrow> 'a CopyOnWrite \<Rightarrow> error + (CopyOnWriteStateReference \<times> 'a CopyOnWrite)" where
  "CopyOnWriteStateReference_copy other s =
     (let this = \<lparr>instance_ptr = instance_ptr other\<rparr> in
      if instance_ptr this = 0 then Inl NullDereference
      else case store s (instance_ptr this) of
        None \<Rightarrow> Inl InvalidPointer
      | Some obj \<Rightarrow>
          Inr (this, s\<lparr>store := (store s)(instance_ptr this \<mapsto> obj\<lparr>refcount := refcount obj + 1\<rparr>)\<rparr>))"

text \<open>The move constructor returns the new handle and the source as it is left.\<close>

definition CopyOnWriteStateReference_move ::
  "CopyOnWriteStateReference \<Rightarrow> CopyOnWriteStateReference \<times> CopyOnWriteStateReference" where
  "CopyOnWriteStateReference_move other =
     (if instance_ptr other \<noteq> 0
      then (\<lparr>instance_ptr = instance_ptr other\<rparr>, other\<lparr>instance_ptr := 0\<rparr>)
      else (\<lparr>instance_ptr = 0\<rparr>, other))"

definition CopyOnWriteStateReference_destructor ::
  "CopyOnWriteStateReference \<Rightarrow> 'a CopyOnWrite \<Rightarrow> error + 'a CopyOnWrite" where
  "CopyOnWriteStateReference_destructor this s =
     (if instance_ptr this \<noteq> 0 then getRidOfPointer (instance_ptr this) s else Inr s)"

text \<open>\<^verbatim>\<open>operator->\<close> of the handle, followed by the read of the payload.\<close>

definition CopyOnWriteStateReference_arrow ::
  "CopyOnWriteStateReference \<Rightarrow> 'a CopyOnWrite \<Rightarrow> error + 'a" where
  "CopyOnWriteStateReference_arrow this s =
     (if instance_ptr this = 0 then Inl NullDereference
      else case store s (instance_ptr this) of
        None \<Rightarrow> Inl InvalidPointer
      | Some obj \<Rightarrow> Inr (instance_T obj))"

text \<open>
  The assignments return the assigned handle and, for the move, the source as it is
  left. When both operands are one object, the caller stores the source last.
\<close>

definition CopyOnWriteStateReference_assign_copy ::
  "CopyOnWriteStateReference \<Rightarrow> CopyOnWriteStateReference \<Rightarrow> 'a CopyOnWrite
     \<Rightarrow> error + (CopyOnWriteStateReference \<times> 'a CopyOnWrite)" where
  "CopyOnWriteStateReference_assign_copy this other s =
     (case (if instance_ptr this \<noteq> 0 then getRidOfPointer (instance_ptr this) s else Inr s) of
        Inl e \<Rightarrow> Inl e
      | Inr s1 \<Rightarrow>
          (let this1 = this\<lparr>instance_ptr := instance_ptr other\<rparr> in
           if instance_ptr this1 \<noteq> 0
           then (case store s1 (instance_ptr this1) of
                   None \<Rightarrow> Inl InvalidPointer
                 | Some obj \<Rightarrow>
                     Inr (this1, s1\<lparr>store := (store s1)(instance_ptr this1 \<mapsto>
                                         obj\<lparr>refcount := refcount obj + 1\<rparr>)\<rparr>))
           else Inr (this1, s1)))"

definition CopyOnWriteStateReference_assign_move ::
  "CopyOnWriteStateReference \<Rightarrow> CopyOnWriteStateReference \<Rightarrow> 'a CopyOnWrite
     \<Rightarrow> error + (CopyOnWriteStateReference \<times> CopyOnWriteStateReference \<times> 'a CopyOnWrite)" where
  "CopyOnWriteStateReference_assign_move this other s =
     (case (if instance_ptr this \<noteq> 0 then getRidOfPointer (instance_ptr this) s else Inr s) of
        Inl e \<Rightarrow> Inl e
      | Inr s1 \<Rightarrow> Inr (this\<lparr>instance_ptr := instance_ptr other\<rparr>, other\<lparr>instance_ptr := 0\<rparr>, s1))"

subsection \<open>The container's public operations\<close>

definition get :: "'a CopyOnWrite \<Rightarrow> error + (CopyOnWriteStateReference \<times> 'a CopyOnWrite)" where
  "get s =
     (case safeInstance s of
        Inl e \<Rightarrow> Inl e
      | Inr (obtained, s1) \<Rightarrow> Inr (\<lparr>instance_ptr = obtained\<rparr>, s1))"

text \<open>
  \<^verbatim>\<open>tested->a\<close>: the container's \<^verbatim>\<open>operator->\<close> returns a temporary handle, the
  payload is read through it, and the temporary is destroyed.
\<close>

definition CopyOnWrite_arrow :: "'a CopyOnWrite \<Rightarrow> error + ('a \<times> 'a CopyOnWrite)" where
  "CopyOnWrite_arrow s =
     (case safeInstance s of
        Inl e \<Rightarrow> Inl e
      | Inr (obtained, s1) \<Rightarrow>
          (let temporary = \<lparr>instance_ptr = obtained\<rparr> in
           case CopyOnWriteStateReference_arrow temporary s1 of
             Inl e \<Rightarrow> Inl e
           | Inr x \<Rightarrow>
               (case CopyOnWriteStateReference_destructor temporary s1 of
                  Inl e \<Rightarrow> Inl e
                | Inr s2 \<Rightarrow> Inr (x, s2))))"

definition AlwaysPassingVerifier :: "'a \<Rightarrow> ('a, bool) call" where
  "AlwaysPassingVerifier x s = Some (Inr True, s)"

text \<open>
  \<^verbatim>\<open>std::lock_guard lock(editMutex)\<close> around a body: locking a mutex that is held
  never returns; the guard unlocks when the body is left, by return or by exception.
\<close>

definition lock_guard :: "('a, 'r) call \<Rightarrow> ('a, 'r) call" where
  "lock_guard body s =
     (if editMutex s then None
      else case body (s\<lparr>editMutex := True\<rparr>) of
        None \<Rightarrow> None
      | Some (r, s1) \<Rightarrow> Some (r, s1\<lparr>editMutex := False\<rparr>))"

text \<open>
  \<^verbatim>\<open>std::unique_lock lock(editMutex, std::try_to_lock); if (!lock.owns_lock()) return false;\<close>
\<close>

definition try_to_lock :: "('a, bool) call \<Rightarrow> ('a, bool) call" where
  "try_to_lock body s =
     (if editMutex s then Some (Inr False, s)
      else case body (s\<lparr>editMutex := True\<rparr>) of
        None \<Rightarrow> None
      | Some (r, s1) \<Rightarrow> Some (r, s1\<lparr>editMutex := False\<rparr>))"

definition emplace :: "64 word \<Rightarrow> ('args \<Rightarrow> error + 'a) \<Rightarrow> 'args \<Rightarrow> ('a, bool) call" where
  "emplace fresh construct constructorArgs =
     lock_guard (replace (TakesNothing (new_Internal fresh (construct constructorArgs))) AlwaysPassingVerifier)"

definition reset ::
  "64 word \<Rightarrow> ('args \<Rightarrow> error + 'a) \<Rightarrow> ('a \<Rightarrow> ('a, 'a) call) \<Rightarrow> ('a \<Rightarrow> ('a, bool) call)
     \<Rightarrow> 'args \<Rightarrow> ('a, bool) call" where
  "reset fresh construct modifier verifier constructorArgs =
     lock_guard (replaceWithNew fresh construct modifier verifier constructorArgs)"

definition tryReset ::
  "64 word \<Rightarrow> ('args \<Rightarrow> error + 'a) \<Rightarrow> ('a \<Rightarrow> ('a, 'a) call) \<Rightarrow> ('a \<Rightarrow> ('a, bool) call)
     \<Rightarrow> 'args \<Rightarrow> ('a, bool) call" where
  "tryReset fresh construct modifier verifier constructorArgs =
     try_to_lock (replaceWithNew fresh construct modifier verifier constructorArgs)"

definition edit ::
  "64 word \<Rightarrow> ('a \<Rightarrow> error + 'a) \<Rightarrow> ('a \<Rightarrow> ('a, 'a) call) \<Rightarrow> ('a \<Rightarrow> ('a, bool) call)
     \<Rightarrow> ('a, bool) call" where
  "edit fresh copy modifier verifier =
     lock_guard (replaceWithModifiedCopy fresh copy modifier verifier)"

definition tryEdit ::
  "64 word \<Rightarrow> ('a \<Rightarrow> error + 'a) \<Rightarrow> ('a \<Rightarrow> ('a, 'a) call) \<Rightarrow> ('a \<Rightarrow> ('a, bool) call)
     \<Rightarrow> ('a, bool) call" where
  "tryEdit fresh copy modifier verifier =
     try_to_lock (replaceWithModifiedCopy fresh copy modifier verifier)"

subsection \<open>Callbacks that leave the container alone\<close>

text \<open>
  A modifier or verifier that does not call back into the container: it returns a
  value or throws, and what it does depends on the payload only. The lambdas of the
  test program that assign a field or compare one are of this kind.
\<close>

definition stateless :: "('a \<Rightarrow> error + 'r) \<Rightarrow> 'a \<Rightarrow> ('a, 'r) call" where
  "stateless f x s = Some (f x, s)"

subsection \<open>States between operations\<close>

text \<open>
  An address of the lower canonical half of the x86-64 address space, where user-space
  objects live: not null, and bit 47 and the sixteen bits above it are clear, so that
  the slot holds it with an in-flight count of zero and \<open>getPointer\<close> gives it back.
\<close>

definition lowHalfAddress :: "64 word \<Rightarrow> bool" where
  "lowHalfAddress p \<longleftrightarrow> p \<noteq> 0 \<and> p < 0x0000800000000000"

text \<open>
  The container at rest: the slot holds the address of a live snapshot with a non-zero
  count, no reader is in flight and the drain counter is zero.
\<close>

definition quiescent :: "'a CopyOnWrite \<Rightarrow> bool" where
  "quiescent s \<longleftrightarrow>
     lowHalfAddress (addressAndCopyCounter s) \<and>
     (case store s (addressAndCopyCounter s) of None \<Rightarrow> False | Some obj \<Rightarrow> refcount obj \<noteq> 0) \<and>
     previousCopyCounter s = 0"

subsection \<open>What a write with stateless callbacks comes to\<close>

text \<open>
  Two functions used to state what the operations compute; the lemmas below prove that
  the operations agree with them. \<open>published fresh c s\<close> is \<open>s\<close> after the
  snapshot at \<open>fresh\<close>, with payload \<open>c\<close>, has taken the slot and the slot's
  reference to the old snapshot has been released. \<open>written fresh v g s\<close> is the
  outcome of a write whose verifier computes \<open>v\<close> and whose replacement payload is
  computed by \<open>g\<close> from the old one.
\<close>

definition published :: "64 word \<Rightarrow> 'a \<Rightarrow> 'a CopyOnWrite \<Rightarrow> 'a CopyOnWrite" where
  "published fresh c s =
     (case getRidOfPointer (addressAndCopyCounter s)
             (s\<lparr>store := (store s)(fresh \<mapsto> \<lparr>refcount = 1, instance_T = c\<rparr>),
                addressAndCopyCounter := fresh\<rparr>) of
        Inl e \<Rightarrow> s
      | Inr s1 \<Rightarrow> s1)"

definition written :: "64 word \<Rightarrow> ('a \<Rightarrow> error + bool) \<Rightarrow> ('a \<Rightarrow> error + 'a) \<Rightarrow> ('a, bool) call" where
  "written fresh v g s =
     (case store s (addressAndCopyCounter s) of
        None \<Rightarrow> Some (Inl InvalidPointer, s)
      | Some obj \<Rightarrow>
          (case v (instance_T obj) of
             Inl e \<Rightarrow> Some (Inl e, s)
           | Inr accepted \<Rightarrow>
               if \<not> accepted then Some (Inr False, s)
               else (case g (instance_T obj) of
                       Inl e \<Rightarrow> Some (Inl e, s)
                     | Inr c \<Rightarrow> Some (Inr True, published fresh c s))))"

definition andThen :: "error + 'a \<Rightarrow> ('a \<Rightarrow> error + 'b) \<Rightarrow> error + 'b" where
  "andThen r f = (case r of Inl e \<Rightarrow> Inl e | Inr x \<Rightarrow> f x)"

subsection \<open>Callbacks under the mutex\<close>

text \<open>
  \<open>underLock callback\<close> is \<open>callback\<close> with an assertion in front: it behaves as
  \<open>callback\<close> when the mutex is held and never returns otherwise. An operation that
  does the same with \<open>underLock callback\<close> as with \<open>callback\<close> only ever runs the
  callback with the mutex held.
\<close>

definition underLock :: "('a \<Rightarrow> ('a, 'r) call) \<Rightarrow> 'a \<Rightarrow> ('a, 'r) call" where
  "underLock callback x s = (if editMutex s then callback x s else None)"

subsection \<open>The container of the test program\<close>

text \<open>
  \<^verbatim>\<open>struct TestClass { int a = 0; int b = 0; TestClass(int a) : a(a) {} }\<close> as the
  pair \<open>(a, b)\<close>, and \<^verbatim>\<open>CopyOnWrite<TestClass> tested(3)\<close> with its snapshot at the
  address \<open>0x1000\<close>.
\<close>

definition TestClass :: "int \<Rightarrow> error + int \<times> int" where
  "TestClass a = Inr (a, 0)"

definition tested :: "(int \<times> int) CopyOnWrite" where
  "tested = \<lparr>store = [0x1000 \<mapsto> \<lparr>refcount = 1, instance_T = (3, 0)\<rparr>],
              addressAndCopyCounter = 0x1000, previousCopyCounter = 0, editMutex = False\<rparr>"

subsection \<open>A program of public operations\<close>

text \<open>
  The container together with the handles the caller holds, in the order they were
  created; an empty handle has a null pointer.
\<close>

record 'a world =
  container :: "'a CopyOnWrite"
  handles :: "CopyOnWriteStateReference list"

text \<open>
  One public operation of a sequential caller. The write operations carry the address
  the allocator returns and their callbacks (a modifier, then a verifier, both
  \<open>stateless\<close>); the handle operations name handles by position.
\<close>

datatype ('a, 'args) operation =
    Get
  | Emplace "64 word" 'args
  | Reset "64 word" "'a \<Rightarrow> error + 'a" "'a \<Rightarrow> error + bool" 'args
  | TryReset "64 word" "'a \<Rightarrow> error + 'a" "'a \<Rightarrow> error + bool" 'args
  | Edit "64 word" "'a \<Rightarrow> error + 'a" "'a \<Rightarrow> error + bool"
  | TryEdit "64 word" "'a \<Rightarrow> error + 'a" "'a \<Rightarrow> error + bool"
  | HandleCopy nat
  | HandleMove nat
  | HandleDestroy nat
  | HandleAssignCopy nat nat
  | HandleAssignMove nat nat

text \<open>
  The world after a write operation: the caller goes on after a return and after an
  exception it catches; there is no next state after undefined behaviour or when the
  call does not return.
\<close>

definition afterCall :: "'a world \<Rightarrow> ((error + bool) \<times> 'a CopyOnWrite) option \<Rightarrow> 'a world option" where
  "afterCall w r =
     (case r of
        None \<Rightarrow> None
      | Some (Inr b, s) \<Rightarrow> Some (w\<lparr>container := s\<rparr>)
      | Some (Inl (Exception n), s) \<Rightarrow> Some (w\<lparr>container := s\<rparr>)
      | Some (Inl NullDereference, s) \<Rightarrow> None
      | Some (Inl InvalidPointer, s) \<Rightarrow> None)"

fun step ::
  "('args \<Rightarrow> error + 'a) \<Rightarrow> ('a \<Rightarrow> error + 'a) \<Rightarrow> ('a, 'args) operation \<Rightarrow> 'a world \<Rightarrow> 'a world option" where
  "step construct copy Get w =
     (case get (container w) of
        Inl e \<Rightarrow> None
      | Inr (h, s) \<Rightarrow> Some \<lparr>container = s, handles = handles w @ [h]\<rparr>)"
| "step construct copy (Emplace fresh args) w =
     afterCall w (emplace fresh construct args (container w))"
| "step construct copy (Reset fresh m v args) w =
     afterCall w (reset fresh construct (stateless m) (stateless v) args (container w))"
| "step construct copy (TryReset fresh m v args) w =
     afterCall w (tryReset fresh construct (stateless m) (stateless v) args (container w))"
| "step construct copy (Edit fresh m v) w =
     afterCall w (edit fresh copy (stateless m) (stateless v) (container w))"
| "step construct copy (TryEdit fresh m v) w =
     afterCall w (tryEdit fresh copy (stateless m) (stateless v) (container w))"
| "step construct copy (HandleCopy i) w =
     (if i < length (handles w)
      then (case CopyOnWriteStateReference_copy (handles w ! i) (container w) of
              Inl e \<Rightarrow> None
            | Inr (h, s) \<Rightarrow> Some \<lparr>container = s, handles = handles w @ [h]\<rparr>)
      else None)"
| "step construct copy (HandleMove i) w =
     (if i < length (handles w)
      then (case CopyOnWriteStateReference_move (handles w ! i) of
              (h, source) \<Rightarrow> Some (w\<lparr>handles := (handles w)[i := source] @ [h]\<rparr>))
      else None)"
| "step construct copy (HandleDestroy i) w =
     (if i < length (handles w)
      then (case CopyOnWriteStateReference_destructor (handles w ! i) (container w) of
              Inl e \<Rightarrow> None
            | Inr s \<Rightarrow> Some \<lparr>container = s, handles = take i (handles w) @ drop (Suc i) (handles w)\<rparr>)
      else None)"
| "step construct copy (HandleAssignCopy i j) w =
     (if i < length (handles w) \<and> j < length (handles w)
      then (case CopyOnWriteStateReference_assign_copy (handles w ! i) (handles w ! j) (container w) of
              Inl e \<Rightarrow> None
            | Inr (this, s) \<Rightarrow> Some \<lparr>container = s, handles = (handles w)[i := this]\<rparr>)
      else None)"
| "step construct copy (HandleAssignMove i j) w =
     (if i < length (handles w) \<and> j < length (handles w)
      then (case CopyOnWriteStateReference_assign_move (handles w ! i) (handles w ! j) (container w) of
              Inl e \<Rightarrow> None
            | Inr (this, source, s) \<Rightarrow>
                Some \<lparr>container = s, handles = (handles w)[i := this, j := source]\<rparr>)
      else None)"

text \<open>
  What the environment guarantees for an operation: the allocator returns a lower-half
  address that is not in use, and the handles a program can hold at once are fewer than
  the count can represent (a handle occupies eight bytes of a 64-bit address space).
\<close>

fun admissible :: "('a, 'args) operation \<Rightarrow> 'a world \<Rightarrow> bool" where
  "admissible Get w \<longleftrightarrow> length (handles w) + 2 < 2 ^ 64"
| "admissible (Emplace fresh args) w \<longleftrightarrow> lowHalfAddress fresh \<and> store (container w) fresh = None"
| "admissible (Reset fresh m v args) w \<longleftrightarrow> lowHalfAddress fresh \<and> store (container w) fresh = None"
| "admissible (TryReset fresh m v args) w \<longleftrightarrow> lowHalfAddress fresh \<and> store (container w) fresh = None"
| "admissible (Edit fresh m v) w \<longleftrightarrow> lowHalfAddress fresh \<and> store (container w) fresh = None"
| "admissible (TryEdit fresh m v) w \<longleftrightarrow> lowHalfAddress fresh \<and> store (container w) fresh = None"
| "admissible (HandleCopy i) w \<longleftrightarrow> length (handles w) + 2 < 2 ^ 64"
| "admissible (HandleMove i) w \<longleftrightarrow> length (handles w) + 2 < 2 ^ 64"
| "admissible (HandleDestroy i) w \<longleftrightarrow> True"
| "admissible (HandleAssignCopy i j) w \<longleftrightarrow> True"
| "admissible (HandleAssignMove i j) w \<longleftrightarrow> True"

fun mutating :: "('a, 'args) operation \<Rightarrow> bool" where
  "mutating (Emplace fresh args) = True"
| "mutating (Reset fresh m v args) = True"
| "mutating (TryReset fresh m v args) = True"
| "mutating (Edit fresh m v) = True"
| "mutating (TryEdit fresh m v) = True"
| "mutating _ = False"

fun run ::
  "('args \<Rightarrow> error + 'a) \<Rightarrow> ('a \<Rightarrow> error + 'a) \<Rightarrow> ('a, 'args) operation list \<Rightarrow> 'a world \<Rightarrow> 'a world option" where
  "run construct copy [] w = Some w"
| "run construct copy (op # ops) w =
     (if admissible op w
      then (case step construct copy op w of
              None \<Rightarrow> None
            | Some w1 \<Rightarrow> run construct copy ops w1)
      else None)"

text \<open>
  The states a sequential program reaches: it constructs the container in an empty
  free store and runs public operations one after the other.
\<close>

inductive reachable :: "('args \<Rightarrow> error + 'a) \<Rightarrow> ('a \<Rightarrow> error + 'a) \<Rightarrow> 'a world \<Rightarrow> bool"
  for construct :: "'args \<Rightarrow> error + 'a" and copy :: "'a \<Rightarrow> error + 'a" where
  constructed:
    "lowHalfAddress fresh \<Longrightarrow> CopyOnWrite_constructor fresh construct args Map.empty = Inr s
       \<Longrightarrow> reachable construct copy \<lparr>container = s, handles = []\<rparr>"
| stepped:
    "reachable construct copy w \<Longrightarrow> admissible op w \<Longrightarrow> step construct copy op w = Some w1
       \<Longrightarrow> reachable construct copy w1"

text \<open>
  The number of references to the snapshot at \<open>p\<close> that the program holds: one for
  each handle bound to it, and one for the slot when it is the current snapshot.
\<close>

definition holders :: "'a world \<Rightarrow> 64 word \<Rightarrow> nat" where
  "holders w p =
     count_list (map instance_ptr (handles w)) p +
     (if getPointer (addressAndCopyCounter (container w)) = p then 1 else 0)"

subsection \<open>The reference count as an invariant\<close>

text \<open>
  \<open>tally h n\<close>: in the free store \<open>h\<close>, the object at a non-null address \<open>p\<close> is live
  exactly when \<open>n p\<close> is not zero, and then its count is \<open>n p\<close>. A world is
  \<open>counted\<close> when its container is at rest with the mutex free, nothing lives at the
  null address, and the counts of its free store are the numbers of holders.
\<close>

definition tally :: "(64 word \<rightharpoonup> 'a Internal) \<Rightarrow> (64 word \<Rightarrow> nat) \<Rightarrow> bool" where
  "tally h n \<longleftrightarrow>
     (\<forall>p. p \<noteq> 0 \<longrightarrow>
        (case h p of None \<Rightarrow> n p = 0 | Some obj \<Rightarrow> n p \<noteq> 0 \<and> unat (refcount obj) = n p))"

definition counted :: "'a world \<Rightarrow> bool" where
  "counted w \<longleftrightarrow>
     quiescent (container w) \<and> \<not> editMutex (container w) \<and>
     length (handles w) + 1 < 2 ^ 64 \<and>
     store (container w) 0 = None \<and>
     tally (store (container w)) (holders w)"

text \<open>The test container after \<^verbatim>\<open>reference = tested.get()\<close>.\<close>

definition tested_held :: "(int \<times> int) world" where
  "tested_held =
     \<lparr>container = tested\<lparr>store := [0x1000 \<mapsto> \<lparr>refcount = 2, instance_T = (3, 0)\<rparr>]\<rparr>,
      handles = [\<lparr>instance_ptr = 0x1000\<rparr>]\<rparr>"

section \<open>Properties of the operations\<close>

subsection \<open>Addresses and the packed word\<close>

lemma c47: "(0x0000800000000000 :: 64 word) = 2 ^ 47"
  by simp

lemma low_mask:
  assumes "(p :: 64 word) < 0x0000800000000000"
  shows "p AND mask 47 = p"
proof -
  from assms have "p < 2 ^ 47" unfolding c47 .
  then show ?thesis by (rule less_mask_eq)
qed

lemma low_bit_less:
  assumes "(p :: 64 word) < 0x0000800000000000" "bit p n"
  shows "n < 47"
proof -
  have "bit (p AND mask 47) n" using assms(2) low_mask[OF assms(1)] by simp
  then have "bit (mask 47 :: 64 word) n" unfolding bit_and_iff by (rule conjunct2)
  then show ?thesis unfolding bit_mask_iff by (rule conjunct2)
qed

lemma suffix_mask: "suffix = mask 48"
  by (simp add: suffix_def mask_eq_exp_minus_1)

lemma increment_exp: "increment = 2 ^ 48"
  by (simp add: increment_def)

lemma low_and_bit47:
  assumes "(p :: 64 word) < 0x0000800000000000"
  shows "p AND 0x0000800000000000 = 0"
proof -
  have "\<not> bit p 47" using low_bit_less[OF assms, of 47] by auto
  then have "p AND 2 ^ 47 = 0" by (simp only: and_exp_eq_0_iff_not_bit not_False_eq_True)
  then show ?thesis unfolding c47 .
qed

lemma low_and_suffix:
  assumes "(p :: 64 word) < 0x0000800000000000"
  shows "p AND suffix = p"
proof -
  have "p AND mask 48 = p"
  proof (rule bit_eqI)
    fix n
    show "bit (p AND mask 48) n = bit p n"
      using low_bit_less[OF assms, of n] unfolding bit_and_iff bit_mask_iff
      by (cases "bit p n") (auto dest: bit_imp_le_length)
  qed
  then show ?thesis by (simp only: suffix_mask)
qed

lemma drop_bit_low:
  assumes "(p :: 64 word) < 0x0000800000000000"
  shows "drop_bit 48 p = 0"
proof (rule bit_eqI)
  fix n
  show "bit (drop_bit 48 p) n = bit (0 :: 64 word) n"
    using low_bit_less[OF assms, of "48 + n"] unfolding bit_drop_bit_eq by auto
qed

lemma take_bit_48_int: "take_bit 48 (x + 2 ^ 48 :: int) = take_bit 48 x"
proof -
  have "take_bit 48 (x + 2 ^ 48 :: int) = take_bit 48 (take_bit 48 x + take_bit 48 (2 ^ 48 :: int))"
    by (rule take_bit_add [symmetric])
  also have "take_bit 48 (2 ^ 48 :: int) = 0"
    by (simp only: take_bit_eq_0_iff dvd_refl)
  finally show ?thesis by simp
qed

lemma take_bit_48_word: "take_bit 48 ((p :: 64 word) + 2 ^ 48) = take_bit 48 p"
proof -
  have e: "uint (2 ^ 48 :: 64 word) = 2 ^ 48"
    by (rule uint_2p) simp
  have "uint (take_bit 48 (p + 2 ^ 48)) = take_bit 48 (uint (p + 2 ^ 48))"
    by (rule unsigned_take_bit_eq)
  also have "uint (p + 2 ^ 48) = take_bit 64 (uint p + 2 ^ 48)"
    using uint_word_arith_bintrs(1)[of p "2 ^ 48"] unfolding e by simp
  also have "take_bit 48 (take_bit 64 (uint p + 2 ^ 48)) = take_bit 48 (uint p + 2 ^ 48)"
    by (simp only: take_bit_take_bit)
  also have "\<dots> = uint (take_bit 48 p)"
    by (simp only: take_bit_48_int unsigned_take_bit_eq)
  finally show ?thesis by (simp only: word_uint_eq_iff)
qed

lemma increment_suffix: "(p + increment) AND suffix = p AND suffix"
  using take_bit_48_word[of p] by (simp only: suffix_mask increment_exp take_bit_eq_mask)

lemma getPointer_low: "lowHalfAddress p \<Longrightarrow> getPointer p = p"
  by (simp add: getPointer_def lowHalfAddress_def low_and_bit47 low_and_suffix)

lemma abandoned_low: "lowHalfAddress p \<Longrightarrow> drop_bit 48 p = 0"
  by (simp add: lowHalfAddress_def drop_bit_low)

subsection \<open>The loops\<close>

lemma busyWait_Some:
  assumes "busyWait s = Some y"
  shows "previousCopyCounter s = 0 \<and> y = s"
  by (rule busyWait.raw_induct[where P = "\<lambda>s y. previousCopyCounter s = 0 \<and> y = s", OF _ assms])
     (auto split: if_splits)

lemma busyWait_eq: "busyWait s = (if previousCopyCounter s = 0 then Some s else None)"
proof (cases "previousCopyCounter s = 0")
  case True
  then show ?thesis by (subst busyWait.simps) simp
next
  case False
  have "busyWait s = None"
  proof (cases "busyWait s")
    case (Some y)
    with busyWait_Some False show ?thesis by blast
  qed simp
  with False show ?thesis by simp
qed

lemma incrementCopyCounter_current:
  "incrementCopyCounter (addressAndCopyCounter s) s =
     (addressAndCopyCounter s, s\<lparr>addressAndCopyCounter := addressAndCopyCounter s + increment\<rparr>)"
  by simp

lemma decrementCopyCounter_current:
  "addressAndCopyCounter s = value + increment \<Longrightarrow>
   decrementCopyCounter value (value + increment) s = s\<lparr>addressAndCopyCounter := value\<rparr>"
  by (simp add: increment_suffix)

lemma safeInstance_live:
  assumes "lowHalfAddress (addressAndCopyCounter s)"
    and "store s (addressAndCopyCounter s) = Some obj"
  shows "safeInstance s =
    Inr (addressAndCopyCounter s,
         s\<lparr>store := (store s)(addressAndCopyCounter s \<mapsto> obj\<lparr>refcount := refcount obj + 1\<rparr>)\<rparr>)"
proof -
  have p: "getPointer (addressAndCopyCounter s) = addressAndCopyCounter s"
    using assms(1) by (rule getPointer_low)
  have n: "addressAndCopyCounter s \<noteq> 0"
    using assms(1) by (simp add: lowHalfAddress_def)
  show ?thesis
    unfolding safeInstance_def incrementCopyCounter_current
    using assms(2) n
    by (simp add: p Let_def decrementCopyCounter_current del: incrementCopyCounter.simps decrementCopyCounter.simps)
qed

lemma getRidOfPointer_live:
  assumes "p \<noteq> 0" and "store s p = Some obj"
  shows "getRidOfPointer p s =
    Inr (s\<lparr>store := (store s)(p := if refcount obj = 1 then None
                                     else Some (obj\<lparr>refcount := refcount obj - 1\<rparr>))\<rparr>)"
  using assms by (simp add: getRidOfPointer_def Let_def)


subsection \<open>Creators\<close>

lemma modifiedDuplicate_stateless:
  assumes "fresh \<noteq> 0" and "store s fresh = None"
  shows "modifiedDuplicate fresh built (stateless m) s =
    (case andThen built m of
       Inl e \<Rightarrow> Some (Inl e, s)
     | Inr c \<Rightarrow> Some (Inr fresh, s\<lparr>store := (store s)(fresh \<mapsto> \<lparr>refcount = 1, instance_T = c\<rparr>)\<rparr>))"
proof (cases built)
  case (Inl e)
  then show ?thesis
    by (simp add: modifiedDuplicate_def new_Internal_def andThen_def)
next
  case (Inr x)
  have restored: "(store s)(fresh := None) = store s"
    using assms(2) by (simp add: fun_upd_idem)
  show ?thesis
  proof (cases "m x")
    case (Inl e)
    with Inr assms(1) show ?thesis
      by (simp add: modifiedDuplicate_def new_Internal_def andThen_def stateless_def
          DuplicateHolder_destructor_def restored)
  next
    case (Inr c)
    with \<open>built = Inr x\<close> assms(1) show ?thesis
      by (simp add: modifiedDuplicate_def new_Internal_def andThen_def stateless_def
          DuplicateHolder_destructor_def DuplicateHolder_take_def)
  qed
qed

lemma new_Internal_eq:
  "new_Internal fresh built s =
    (case andThen built Inr of
       Inl e \<Rightarrow> Some (Inl e, s)
     | Inr c \<Rightarrow> Some (Inr fresh, s\<lparr>store := (store s)(fresh \<mapsto> \<lparr>refcount = 1, instance_T = c\<rparr>)\<rparr>))"
  by (cases built) (simp_all add: new_Internal_def andThen_def)

subsection \<open>Replace\<close>

lemma drain_idle: "previousCopyCounter s = 0 \<Longrightarrow> s\<lparr>previousCopyCounter := 0\<rparr> = s"
  by (cases s) simp

lemma unlock_idle: "\<not> editMutex s \<Longrightarrow> s\<lparr>editMutex := False\<rparr> = s"
  by (cases s) simp

lemma quiescentE:
  assumes "quiescent s"
  obtains obj where "store s (addressAndCopyCounter s) = Some obj" and "refcount obj \<noteq> 0"
    and "lowHalfAddress (addressAndCopyCounter s)" and "previousCopyCounter s = 0"
    and "getPointer (addressAndCopyCounter s) = addressAndCopyCounter s"
    and "addressAndCopyCounter s \<noteq> 0"
  using assms getPointer_low[of "addressAndCopyCounter s"]
  by (auto simp: quiescent_def lowHalfAddress_def split: option.splits)

lemma replace_written:
  assumes q: "quiescent s" and f: "lowHalfAddress fresh" "store s fresh = None"
    and cr: "\<And>old. (case creator of TakesOld c \<Rightarrow> c old s | TakesNothing c \<Rightarrow> c s) =
      (case g old of
         Inl e \<Rightarrow> Some (Inl e, s)
       | Inr c \<Rightarrow> Some (Inr fresh, s\<lparr>store := (store s)(fresh \<mapsto> \<lparr>refcount = 1, instance_T = c\<rparr>)\<rparr>))"
  shows "replace creator (stateless v) s = written fresh v g s"
proof -
  from q obtain obj where cur: "store s (addressAndCopyCounter s) = Some obj"
    and low: "lowHalfAddress (addressAndCopyCounter s)"
    and pcc: "previousCopyCounter s = 0"
    and gp: "getPointer (addressAndCopyCounter s) = addressAndCopyCounter s"
    and nz: "addressAndCopyCounter s \<noteq> 0"
    by (rule quiescentE)
  have fz: "fresh \<noteq> 0" using f(1) by (simp add: lowHalfAddress_def)
  have ne: "fresh \<noteq> addressAndCopyCounter s" using cur f(2) by auto
  have created: "(case creator of
                    TakesOld c \<Rightarrow>
                      (case store s (addressAndCopyCounter s) of
                         None \<Rightarrow> Some (Inl InvalidPointer, s)
                       | Some obj1 \<Rightarrow> c (instance_T obj1) s)
                  | TakesNothing c \<Rightarrow> c s) =
      (case g (instance_T obj) of
         Inl e \<Rightarrow> Some (Inl e, s)
       | Inr c \<Rightarrow> Some (Inr fresh, s\<lparr>store := (store s)(fresh \<mapsto> \<lparr>refcount = 1, instance_T = c\<rparr>)\<rparr>))"
    using cr[of "instance_T obj"] cur by (cases creator) simp_all
  show ?thesis
  proof (cases "v (instance_T obj)")
    case (Inl e)
    then show ?thesis
      using cur nz by (simp add: replace_def written_def stateless_def gp)
  next
    case (Inr accepted)
    note v = this
    show ?thesis
    proof (cases accepted)
      case False
      with v show ?thesis
        using cur nz by (simp add: replace_def written_def stateless_def gp)
    next
      case True
      show ?thesis
      proof (cases "g (instance_T obj)")
        case (Inl e)
        with v True show ?thesis
          using cur nz by (simp add: replace_def written_def stateless_def gp created)
      next
        case (Inr c)
        let ?s3 = "s\<lparr>store := (store s)(fresh \<mapsto> \<lparr>refcount = 1, instance_T = c\<rparr>),
                     addressAndCopyCounter := fresh\<rparr>"
        have live: "store ?s3 (addressAndCopyCounter s) = Some obj"
          using cur ne by simp
        obtain s6 where rid: "getRidOfPointer (addressAndCopyCounter s) ?s3 = Inr s6"
          using getRidOfPointer_live[OF nz live] by blast
        have "replace creator (stateless v) s = Some (Inr True, s6)"
          using cur nz v True Inr fz pcc abandoned_low[OF low] rid
          by (simp add: replace_def stateless_def gp created Let_def busyWait_eq drain_idle)
        moreover have "written fresh v g s = Some (Inr True, s6)"
          using cur v True Inr rid by (simp add: written_def published_def)
        ultimately show ?thesis by simp
      qed
    qed
  qed
qed

subsection \<open>The write operations with stateless callbacks\<close>

lemma quiescent_editMutex [simp]: "quiescent (s\<lparr>editMutex := b\<rparr>) = quiescent s"
  by (simp add: quiescent_def)

lemma published_editMutex:
  "published fresh c (s\<lparr>editMutex := b\<rparr>) = (published fresh c s)\<lparr>editMutex := b\<rparr>"
  by (simp add: published_def getRidOfPointer_def Let_def split: option.splits)

lemma written_unlocked:
  assumes "\<not> editMutex s"
  shows "(case written fresh v g (s\<lparr>editMutex := True\<rparr>) of
            None \<Rightarrow> None
          | Some (r, s1) \<Rightarrow> Some (r, s1\<lparr>editMutex := False\<rparr>)) = written fresh v g s"
proof -
  have u: "s\<lparr>editMutex := False\<rparr> = s" using assms by (rule unlock_idle)
  have p: "\<And>c. (published fresh c s)\<lparr>editMutex := False\<rparr> = published fresh c s"
    using assms by (intro unlock_idle) (simp add: published_def getRidOfPointer_def Let_def split: option.splits)
  show ?thesis
    by (simp add: written_def published_editMutex u p split: option.splits sum.splits)
qed

lemma AlwaysPassingVerifier_stateless: "AlwaysPassingVerifier = stateless (\<lambda>x. Inr True)"
  by (intro ext) (simp add: AlwaysPassingVerifier_def stateless_def)

lemma replaceWithModifiedCopy_written:
  assumes "quiescent s" "lowHalfAddress fresh" "store s fresh = None"
  shows "replaceWithModifiedCopy fresh copy (stateless m) (stateless v) s =
         written fresh v (\<lambda>x. andThen (copy x) m) s"
  unfolding replaceWithModifiedCopy_def
  using assms
  by (intro replace_written) (simp_all add: modifiedDuplicate_stateless lowHalfAddress_def)

lemma replaceWithNew_written:
  assumes "quiescent s" "lowHalfAddress fresh" "store s fresh = None"
  shows "replaceWithNew fresh construct (stateless m) (stateless v) args s =
         written fresh v (\<lambda>x. andThen (construct args) m) s"
  unfolding replaceWithNew_def
  using assms
  by (intro replace_written) (simp_all add: modifiedDuplicate_stateless lowHalfAddress_def)

lemma edit_written:
  assumes "quiescent s" "\<not> editMutex s" "lowHalfAddress fresh" "store s fresh = None"
  shows "edit fresh copy (stateless m) (stateless v) s = written fresh v (\<lambda>x. andThen (copy x) m) s"
  using assms
  by (simp add: edit_def lock_guard_def replaceWithModifiedCopy_written written_unlocked)

lemma tryEdit_written:
  assumes "quiescent s" "\<not> editMutex s" "lowHalfAddress fresh" "store s fresh = None"
  shows "tryEdit fresh copy (stateless m) (stateless v) s = written fresh v (\<lambda>x. andThen (copy x) m) s"
  using assms
  by (simp add: tryEdit_def try_to_lock_def replaceWithModifiedCopy_written written_unlocked)

lemma reset_written:
  assumes "quiescent s" "\<not> editMutex s" "lowHalfAddress fresh" "store s fresh = None"
  shows "reset fresh construct (stateless m) (stateless v) args s =
         written fresh v (\<lambda>x. andThen (construct args) m) s"
  using assms
  by (simp add: reset_def lock_guard_def replaceWithNew_written written_unlocked)

lemma tryReset_written:
  assumes "quiescent s" "\<not> editMutex s" "lowHalfAddress fresh" "store s fresh = None"
  shows "tryReset fresh construct (stateless m) (stateless v) args s =
         written fresh v (\<lambda>x. andThen (construct args) m) s"
  using assms
  by (simp add: tryReset_def try_to_lock_def replaceWithNew_written written_unlocked)

lemma emplace_written:
  assumes "quiescent s" "\<not> editMutex s" "lowHalfAddress fresh" "store s fresh = None"
  shows "emplace fresh construct args s =
         written fresh (\<lambda>x. Inr True) (\<lambda>x. andThen (construct args) Inr) s"
proof -
  have "replace (TakesNothing (new_Internal fresh (construct args))) (stateless (\<lambda>x. Inr True)) (s\<lparr>editMutex := True\<rparr>) =
        written fresh (\<lambda>x. Inr True) (\<lambda>x. andThen (construct args) Inr) (s\<lparr>editMutex := True\<rparr>)"
    using assms by (intro replace_written) (simp_all add: new_Internal_eq)
  then show ?thesis
    using assms(2)
    by (simp add: emplace_def lock_guard_def AlwaysPassingVerifier_stateless written_unlocked)
qed

lemma published_eq:
  assumes "quiescent s" and "store s fresh = None"
    and "store s (addressAndCopyCounter s) = Some obj"
  shows "published fresh c s =
    s\<lparr>store := (store s)(fresh \<mapsto> \<lparr>refcount = 1, instance_T = c\<rparr>,
            addressAndCopyCounter s := if refcount obj = 1 then None
                                         else Some (obj\<lparr>refcount := refcount obj - 1\<rparr>)),
      addressAndCopyCounter := fresh\<rparr>"
proof -
  from assms(1) have nz: "addressAndCopyCounter s \<noteq> 0" by (rule quiescentE)
  have ne: "fresh \<noteq> addressAndCopyCounter s" using assms(2,3) by auto
  let ?s3 = "s\<lparr>store := (store s)(fresh \<mapsto> \<lparr>refcount = 1, instance_T = c\<rparr>),
               addressAndCopyCounter := fresh\<rparr>"
  have live: "store ?s3 (addressAndCopyCounter s) = Some obj"
    using assms(3) ne by simp
  show ?thesis
    unfolding published_def getRidOfPointer_live[OF nz live] by simp
qed

lemma published_quiescent:
  assumes "quiescent s" and "lowHalfAddress fresh" and "store s fresh = None"
  shows "quiescent (published fresh c s)"
proof -
  from assms(1) obtain obj where cur: "store s (addressAndCopyCounter s) = Some obj"
    and pcc: "previousCopyCounter s = 0" by (rule quiescentE)
  have ne: "fresh \<noteq> addressAndCopyCounter s" using cur assms(3) by auto
  show ?thesis
    unfolding published_eq[OF assms(1,3) cur]
    using assms(2) pcc ne by (simp add: quiescent_def)
qed

lemma getRidOfPointer_after_increment:
  assumes nz: "p \<noteq> 0" and r: "refcount obj \<noteq> 0" and cur: "store s p = Some obj"
  shows "getRidOfPointer p (s\<lparr>store := (store s)(p \<mapsto> obj\<lparr>refcount := refcount obj + 1\<rparr>)\<rparr>) = Inr s"
proof -
  have same: "(store s)(p \<mapsto> obj) = store s"
    using cur by (rule fun_upd_idem)
  have "getRidOfPointer p (s\<lparr>store := (store s)(p \<mapsto> obj\<lparr>refcount := refcount obj + 1\<rparr>)\<rparr>)
        = Inr (s\<lparr>store := (store s)(p \<mapsto> obj)\<rparr>)"
    apply (subst getRidOfPointer_live[where obj = "obj\<lparr>refcount := refcount obj + 1\<rparr>"])
    using nz apply simp
     apply simp
    using r apply simp
    done
  then show ?thesis unfolding same by simp
qed

lemma CopyOnWrite_arrow_quiescent:
  assumes "quiescent s" and "store s (addressAndCopyCounter s) = Some obj"
  shows "CopyOnWrite_arrow s = Inr (instance_T obj, s)"
proof -
  from assms(1) have low: "lowHalfAddress (addressAndCopyCounter s)"
    by (simp add: quiescent_def)
  then have nz: "addressAndCopyCounter s \<noteq> 0"
    by (simp add: lowHalfAddress_def)
  from assms have r: "refcount obj \<noteq> 0" by (simp add: quiescent_def)
  let ?p = "addressAndCopyCounter s"
  let ?s1 = "s\<lparr>store := (store s)(?p \<mapsto> obj\<lparr>refcount := refcount obj + 1\<rparr>)\<rparr>"
  have a: "CopyOnWriteStateReference_arrow \<lparr>instance_ptr = ?p\<rparr> ?s1 = Inr (instance_T obj)"
    using nz by (simp add: CopyOnWriteStateReference_arrow_def)
  have d: "CopyOnWriteStateReference_destructor \<lparr>instance_ptr = ?p\<rparr> ?s1 = Inr s"
    using nz getRidOfPointer_after_increment[OF nz r assms(2)]
    by (simp add: CopyOnWriteStateReference_destructor_def)
  show ?thesis
    unfolding CopyOnWrite_arrow_def safeInstance_live[OF low assms(2)]
    by (simp only: sum.case prod.case Let_def a d)
qed

lemma published_arrow:
  assumes "quiescent s" and "lowHalfAddress fresh" and "store s fresh = None"
  shows "CopyOnWrite_arrow (published fresh c s) = Inr (c, published fresh c s)"
proof -
  from assms(1) obtain obj where cur: "store s (addressAndCopyCounter s) = Some obj"
    by (rule quiescentE)
  have ne: "fresh \<noteq> addressAndCopyCounter s" using cur assms(3) by auto
  have "store (published fresh c s) (addressAndCopyCounter (published fresh c s)) =
        Some \<lparr>refcount = 1, instance_T = c\<rparr>"
    unfolding published_eq[OF assms(1,3) cur] using ne by simp
  from CopyOnWrite_arrow_quiescent[OF published_quiescent[OF assms] this]
  show ?thesis by simp
qed


subsection \<open>Outcomes of a write\<close>

lemma quiescent_current:
  assumes "quiescent s" and "CopyOnWrite_arrow s = Inr (x, s1)"
  shows "\<exists>obj. store s (addressAndCopyCounter s) = Some obj \<and> x = instance_T obj"
proof -
  from assms(1) obtain obj where cur: "store s (addressAndCopyCounter s) = Some obj"
    by (rule quiescentE)
  from CopyOnWrite_arrow_quiescent[OF assms(1) cur] assms(2) cur show ?thesis by simp
qed

lemma written_reject:
  assumes "store s (addressAndCopyCounter s) = Some obj" and "v (instance_T obj) = Inr False"
  shows "written fresh v g s = Some (Inr False, s)"
  using assms by (simp add: written_def)

lemma written_accept:
  assumes "store s (addressAndCopyCounter s) = Some obj" and "v (instance_T obj) = Inr True"
    and "g (instance_T obj) = Inr c"
  shows "written fresh v g s = Some (Inr True, published fresh c s)"
  using assms by (simp add: written_def)

lemma written_failure:
  assumes "store s (addressAndCopyCounter s) = Some obj" and "v (instance_T obj) = Inr True"
    and "g (instance_T obj) = Inl e"
  shows "written fresh v g s = Some (Inl e, s)"
  using assms by (simp add: written_def)

lemma published_slot:
  assumes "quiescent s" and "store s fresh = None"
  shows "addressAndCopyCounter (published fresh c s) = fresh \<and> fresh \<noteq> addressAndCopyCounter s"
proof -
  from assms(1) obtain obj where cur: "store s (addressAndCopyCounter s) = Some obj"
    by (rule quiescentE)
  have ne: "fresh \<noteq> addressAndCopyCounter s" using cur assms(2) by auto
  show ?thesis unfolding published_eq[OF assms cur] using ne by simp
qed

lemma written_cases:
  assumes "quiescent s" and "store s fresh = None"
    and "store s (addressAndCopyCounter s) = Some obj"
    and "written fresh v g s = Some (r, s1)"
  shows "((r = Inr True) = (addressAndCopyCounter s1 \<noteq> addressAndCopyCounter s)) \<and>
         (r \<noteq> Inr True \<longrightarrow> s1 = s) \<and>
         (r = Inr False \<longrightarrow> v (instance_T obj) = Inr False)"
  using assms(3,4) published_slot[OF assms(1,2)]
  by (auto simp: written_def split: sum.splits if_splits)


lemma lock_guard_held: "editMutex s \<Longrightarrow> lock_guard body s = None"
  by (simp add: lock_guard_def)

lemma try_to_lock_held: "editMutex s \<Longrightarrow> try_to_lock body s = Some (Inr False, s)"
  by (simp add: try_to_lock_def)

subsection \<open>Calls made while the mutex is held\<close>

lemma tryEdit_contended:
  "editMutex s \<Longrightarrow> tryEdit fresh copy modifier verifier s = Some (Inr False, s)"
  by (simp add: tryEdit_def try_to_lock_held)

lemma tryReset_contended:
  "editMutex s \<Longrightarrow> tryReset fresh construct modifier verifier args s = Some (Inr False, s)"
  by (simp add: tryReset_def try_to_lock_held)

lemma replace_verifier_underLock:
  "editMutex s \<Longrightarrow> replace creator (underLock verifier) s = replace creator verifier s"
  by (simp add: replace_def underLock_def Let_def split: option.splits)


lemma replace_creator_underLock:
  assumes held: "editMutex s"
    and keeps: "\<forall>x t r t1. editMutex t \<longrightarrow> verifier x t = Some (r, t1) \<longrightarrow> editMutex t1"
    and same: "\<And>t. editMutex t \<Longrightarrow>
      (case creator1 of
         TakesOld c \<Rightarrow>
           (case store t (getPointer (addressAndCopyCounter s)) of
              None \<Rightarrow> Some (Inl InvalidPointer, t)
            | Some obj1 \<Rightarrow> c (instance_T obj1) t)
       | TakesNothing c \<Rightarrow> c t) =
      (case creator2 of
         TakesOld c \<Rightarrow>
           (case store t (getPointer (addressAndCopyCounter s)) of
              None \<Rightarrow> Some (Inl InvalidPointer, t)
            | Some obj1 \<Rightarrow> c (instance_T obj1) t)
       | TakesNothing c \<Rightarrow> c t)"
  shows "replace creator1 verifier s = replace creator2 verifier s"
proof (cases "store s (getPointer (addressAndCopyCounter s))")
  case None
  then show ?thesis by (simp add: replace_def Let_def)
next
  case (Some obj)
  show ?thesis
  proof (cases "verifier (instance_T obj) s")
    case None
    with Some show ?thesis by (simp add: replace_def Let_def)
  next
    case verified: (Some result)
    obtain r t1 where result: "result = (r, t1)" by (cases result)
    have "editMutex t1" using held keeps verified result by blast
    from same[OF this] Some verified result show ?thesis
      by (cases r) (simp_all add: replace_def Let_def)
  qed
qed

lemma modifiedDuplicate_underLock:
  "editMutex s \<Longrightarrow>
   modifiedDuplicate fresh built (underLock modifier) s = modifiedDuplicate fresh built modifier s"
  by (simp add: modifiedDuplicate_def new_Internal_def underLock_def Let_def split: sum.splits)

subsection \<open>The test container\<close>

lemma tested_constructed: "CopyOnWrite_constructor 0x1000 TestClass 3 Map.empty = Inr tested"
  by (simp add: CopyOnWrite_constructor_def TestClass_def tested_def)

lemma tested_quiescent: "quiescent tested"
  by (simp add: quiescent_def lowHalfAddress_def tested_def)

lemma tested_current: "store tested (addressAndCopyCounter tested) = Some \<lparr>refcount = 1, instance_T = (3, 0)\<rparr>"
  by (simp add: tested_def)

lemma tested_arrow: "CopyOnWrite_arrow tested = Inr ((3, 0), tested)"
  using CopyOnWrite_arrow_quiescent[OF tested_quiescent tested_current] by simp

lemma tested_unlocked: "\<not> editMutex tested"
  by (simp add: tested_def)

lemma tested_fresh: "lowHalfAddress 0x2000" "store tested 0x2000 = None"
  by (simp_all add: lowHalfAddress_def tested_def)


section \<open>The reference count\<close>

subsection \<open>Counting\<close>

lemma count_list_update:
  "i < length xs \<Longrightarrow>
   count_list (xs[i := y]) p + (if xs ! i = p then 1 else 0) = count_list xs p + (if y = p then 1 else 0)"
proof (induction xs arbitrary: i)
  case Nil
  then show ?case by simp
next
  case (Cons x xs)
  show ?case
  proof (cases i)
    case 0
    then show ?thesis by simp
  next
    case (Suc k)
    with Cons.prems have "k < length xs" by simp
    from Cons.IH[OF this] Suc show ?thesis by (auto split: if_splits)
  qed
qed

lemma count_list_remove:
  assumes "i < length xs"
  shows "count_list (take i xs @ drop (Suc i) xs) p + (if xs ! i = p then 1 else 0) = count_list xs p"
proof -
  have "xs = take i xs @ xs ! i # drop (Suc i) xs"
    using assms by (rule id_take_nth_drop)
  then have "count_list xs p = count_list (take i xs @ xs ! i # drop (Suc i) xs) p" by simp
  then show ?thesis by simp
qed

lemma count_list_nth: "i < length xs \<Longrightarrow> count_list xs (xs ! i) \<noteq> 0"
  by (simp add: count_list_0_iff)

lemma unat_increment:
  assumes "unat (r :: 64 word) + 1 < 2 ^ 64"
  shows "unat (r + 1) = unat r + 1"
  using assms unat_add_lem[of r 1] by simp

lemma unat_decrement:
  assumes "(r :: 64 word) \<noteq> 0"
  shows "unat (r - 1) = unat r - 1"
  using assms by (rule unat_minus_one)

lemma unat_one_iff: "(unat (r :: 64 word) = 1) = (r = 1)"
  by (metis unat_1 word_unat_eq_iff)

subsection \<open>Tallies\<close>

lemma tallyD:
  "tally h n \<Longrightarrow> p \<noteq> 0 \<Longrightarrow>
   (case h p of None \<Rightarrow> n p = 0 | Some obj \<Rightarrow> n p \<noteq> 0 \<and> unat (refcount obj) = n p)"
  by (simp add: tally_def)

lemma tallyI:
  "(\<And>p. p \<noteq> 0 \<Longrightarrow>
      (case h p of None \<Rightarrow> n p = 0 | Some obj \<Rightarrow> n p \<noteq> 0 \<and> unat (refcount obj) = n p))
   \<Longrightarrow> tally h n"
  by (simp add: tally_def)

lemma tally_cong:
  assumes "tally h n" and "\<And>p. p \<noteq> 0 \<Longrightarrow> n1 p = n p"
  shows "tally h n1"
proof (rule tallyI)
  fix p :: "64 word"
  assume p: "p \<noteq> 0"
  from tallyD[OF assms(1) p] assms(2)[OF p]
  show "case h p of None \<Rightarrow> n1 p = 0 | Some obj \<Rightarrow> n1 p \<noteq> 0 \<and> unat (refcount obj) = n1 p"
    by (simp split: option.splits)
qed

lemma tally_live:
  assumes "tally h n" and "p \<noteq> 0" and "n p \<noteq> 0"
  obtains obj where "h p = Some obj" and "unat (refcount obj) = n p" and "refcount obj \<noteq> 0"
proof -
  from tallyD[OF assms(1,2)] assms(3) obtain obj where o: "h p = Some obj" "unat (refcount obj) = n p"
    by (cases "h p") auto
  with assms(3) have "refcount obj \<noteq> 0" by auto
  with o show ?thesis by (rule that)
qed

lemma tally_dead:
  assumes "tally h n" and "p \<noteq> 0" and "h p = None"
  shows "n p = 0"
  using tallyD[OF assms(1,2)] assms(3) by simp

lemma tally_count:
  assumes "tally h n" and "p \<noteq> 0" and "h p = Some obj"
  shows "unat (refcount obj) = n p" and "n p \<noteq> 0" and "refcount obj \<noteq> 0"
  using tallyD[OF assms(1,2)] assms(3) by auto

lemma tally_increment:
  assumes t: "tally h n" and q: "q \<noteq> 0" "h q = Some obj" and b: "n q + 1 < 2 ^ 64"
    and n1: "\<And>p. p \<noteq> 0 \<Longrightarrow> n1 p = n p + (if p = q then 1 else 0)"
  shows "tally (h(q \<mapsto> obj\<lparr>refcount := refcount obj + 1\<rparr>)) n1"
proof (rule tallyI)
  fix p :: "64 word"
  assume p: "p \<noteq> 0"
  have u: "unat (refcount obj) = n q" using t q by (rule tally_count)
  then have i: "unat (refcount obj + 1) = n q + 1" using b by (simp add: unat_increment)
  show "case (h(q \<mapsto> obj\<lparr>refcount := refcount obj + 1\<rparr>)) p of
          None \<Rightarrow> n1 p = 0 | Some obj \<Rightarrow> n1 p \<noteq> 0 \<and> unat (refcount obj) = n1 p"
  proof (cases "p = q")
    case True
    then show ?thesis using i n1[OF p] by simp
  next
    case False
    then show ?thesis using tallyD[OF t p] n1[OF p] by (simp split: option.splits)
  qed
qed

lemma tally_decrement:
  assumes t: "tally h n" and q: "q \<noteq> 0" "h q = Some obj"
    and n1: "\<And>p. p \<noteq> 0 \<Longrightarrow> n1 p + (if p = q then 1 else 0) = n p"
  shows "tally (h(q := if refcount obj = 1 then None else Some (obj\<lparr>refcount := refcount obj - 1\<rparr>))) n1"
proof (rule tallyI)
  fix p :: "64 word"
  assume p: "p \<noteq> 0"
  have u: "unat (refcount obj) = n q" and z: "n q \<noteq> 0" and r0: "refcount obj \<noteq> 0"
    using t q by (rule tally_count)+
  have d: "unat (refcount obj - 1) = n q - 1" using r0 u by (simp add: unat_decrement)
  have one: "(refcount obj = 1) = (n q = 1)" using u unat_one_iff[of "refcount obj"] by simp
  have n1q: "n1 q + 1 = n q" using n1[OF q(1)] by simp
  show "case (h(q := if refcount obj = 1 then None else Some (obj\<lparr>refcount := refcount obj - 1\<rparr>))) p of
          None \<Rightarrow> n1 p = 0 | Some obj \<Rightarrow> n1 p \<noteq> 0 \<and> unat (refcount obj) = n1 p"
  proof (cases "p = q")
    case True
    then show ?thesis using one d n1q by auto
  next
    case False
    then show ?thesis using tallyD[OF t p] n1[OF p] by (simp split: option.splits)
  qed
qed

lemma tally_new:
  assumes t: "tally h n" and q: "q \<noteq> 0" "h q = None"
    and n1: "\<And>p. p \<noteq> 0 \<Longrightarrow> n1 p = n p + (if p = q then 1 else 0)"
  shows "tally (h(q \<mapsto> \<lparr>refcount = 1, instance_T = c\<rparr>)) n1"
proof (rule tallyI)
  fix p :: "64 word"
  assume p: "p \<noteq> 0"
  have z: "n q = 0" using t q by (rule tally_dead)
  show "case (h(q \<mapsto> \<lparr>refcount = 1, instance_T = c\<rparr>)) p of
          None \<Rightarrow> n1 p = 0 | Some obj \<Rightarrow> n1 p \<noteq> 0 \<and> unat (refcount obj) = n1 p"
  proof (cases "p = q")
    case True
    then show ?thesis using z n1[OF p] by simp
  next
    case False
    then show ?thesis using tallyD[OF t p] n1[OF p] by (simp split: option.splits)
  qed
qed


subsection \<open>Worlds\<close>

lemma countedD:
  assumes "counted w"
  shows "quiescent (container w)" and "\<not> editMutex (container w)"
    and "length (handles w) + 1 < 2 ^ 64" and "tally (store (container w)) (holders w)"
    and "store (container w) 0 = None"
  using assms by (simp_all add: counted_def)

lemma holders_eq:
  assumes "quiescent (container w)"
  shows "holders w p = count_list (map instance_ptr (handles w)) p +
           (if addressAndCopyCounter (container w) = p then 1 else 0)"
proof -
  from assms have "getPointer (addressAndCopyCounter (container w)) = addressAndCopyCounter (container w)"
    by (rule quiescentE)
  then show ?thesis by (simp add: holders_def)
qed

lemma holders_le:
  assumes "quiescent (container w)"
  shows "holders w p \<le> length (handles w) + 1"
  using count_le_length[of "map instance_ptr (handles w)" p]
  by (simp add: holders_eq[OF assms])

lemma counted_handles_cong:
  assumes c: "counted w" and l: "length hs + 1 < 2 ^ 64"
    and n: "\<And>p. p \<noteq> 0 \<Longrightarrow>
      count_list (map instance_ptr hs) p = count_list (map instance_ptr (handles w)) p"
  shows "counted \<lparr>container = container w, handles = hs\<rparr>"
proof -
  note q = countedD(1)[OF c]
  have "tally (store (container w)) (holders \<lparr>container = container w, handles = hs\<rparr>)"
    using countedD(4)[OF c]
  proof (rule tally_cong)
    fix p :: "64 word"
    assume "p \<noteq> 0"
    from n[OF this] show "holders \<lparr>container = container w, handles = hs\<rparr> p = holders w p"
      by (simp add: holders_def)
  qed
  with c l show ?thesis by (simp add: counted_def)
qed

lemma counted_append_null:
  assumes "counted w" and "length (handles w) + 2 < 2 ^ 64"
  shows "counted \<lparr>container = container w, handles = handles w @ [\<lparr>instance_ptr = 0\<rparr>]\<rparr>"
  using assms by (intro counted_handles_cong) simp_all

lemma counted_remove_null:
  assumes "counted w" and "i < length (handles w)" and "instance_ptr (handles w ! i) = 0"
  shows "counted \<lparr>container = container w, handles = take i (handles w) @ drop (Suc i) (handles w)\<rparr>"
proof (rule counted_handles_cong[OF assms(1)])
  show "length (take i (handles w) @ drop (Suc i) (handles w)) + 1 < 2 ^ 64"
    using countedD(3)[OF assms(1)] by simp
next
  fix p :: "64 word"
  assume p: "p \<noteq> 0"
  let ?ps = "map instance_ptr (handles w)"
  have i: "i < length ?ps" using assms(2) by simp
  have "map instance_ptr (take i (handles w) @ drop (Suc i) (handles w)) = take i ?ps @ drop (Suc i) ?ps"
    by (simp add: take_map drop_map)
  moreover have "?ps ! i \<noteq> p" using assms(2,3) p by simp
  ultimately show "count_list (map instance_ptr (take i (handles w) @ drop (Suc i) (handles w))) p =
      count_list ?ps p"
    using count_list_remove[OF i, of p] by simp
qed

lemma counted_acquire:
  assumes c: "counted w" and i: "i < length (handles w)"
    and null: "instance_ptr (handles w ! i) = 0"
    and q: "q \<noteq> 0" and live: "store (container w) q = Some obj"
  shows "counted \<lparr>container = (container w)\<lparr>store := (store (container w))(q \<mapsto> obj\<lparr>refcount := refcount obj + 1\<rparr>)\<rparr>,
                  handles = (handles w)[i := \<lparr>instance_ptr = q\<rparr>]\<rparr>"
    (is "counted ?w1")
proof -
  note qu = countedD(1)[OF c] and t = countedD(4)[OF c] and len = countedD(3)[OF c]
  let ?ps = "map instance_ptr (handles w)"
  have ips: "i < length ?ps" using i by simp
  have ps1: "map instance_ptr (handles ?w1) = ?ps[i := q]" by (simp add: map_update)
  have psi: "?ps ! i = 0" using i null by simp
  have cnt: "count_list (?ps[i := q]) p = count_list ?ps p + (if p = q then 1 else 0)"
    if "p \<noteq> 0" for p
    using count_list_update[OF ips, of q p] that psi by (simp split: if_splits)
  have "count_list (?ps[i := q]) q \<le> length (?ps[i := q])" by (rule count_le_length)
  then have "count_list ?ps q + 1 \<le> length (handles w)" using cnt[OF q] by simp
  then have b: "holders w q + 1 < 2 ^ 64" using len by (simp add: holders_eq[OF qu])
  have q1: "quiescent (container ?w1)"
  proof (cases "q = addressAndCopyCounter (container w)")
    case True
    have "unat (refcount obj) = holders w q" using t q live by (rule tally_count)
    then have "unat (refcount obj + 1) = holders w q + 1" using b by (simp add: unat_increment)
    then have "refcount obj + 1 \<noteq> 0" by auto
    with qu True live show ?thesis by (simp add: quiescent_def)
  next
    case False
    with qu show ?thesis by (simp add: quiescent_def)
  qed
  have "tally ((store (container w))(q \<mapsto> obj\<lparr>refcount := refcount obj + 1\<rparr>)) (holders ?w1)"
    using t q live b
  proof (rule tally_increment)
    fix p :: "64 word"
    assume "p \<noteq> 0"
    from cnt[OF this] show "holders ?w1 p = holders w p + (if p = q then 1 else 0)"
      unfolding holders_eq[OF q1] holders_eq[OF qu] ps1 by simp
  qed
  with q1 c q show ?thesis by (simp add: counted_def)
qed

lemma counted_release:
  assumes c: "counted w" and i: "i < length (handles w)"
    and q: "instance_ptr (handles w ! i) = q" "q \<noteq> 0"
  obtains obj where "store (container w) q = Some obj"
    and "getRidOfPointer q (container w) =
         Inr ((container w)\<lparr>store := (store (container w))(q := if refcount obj = 1 then None
                else Some (obj\<lparr>refcount := refcount obj - 1\<rparr>))\<rparr>)"
    and "counted \<lparr>container = (container w)\<lparr>store := (store (container w))(q := if refcount obj = 1 then None
                else Some (obj\<lparr>refcount := refcount obj - 1\<rparr>))\<rparr>,
                  handles = (handles w)[i := \<lparr>instance_ptr = 0\<rparr>]\<rparr>"
proof -
  note qu = countedD(1)[OF c] and t = countedD(4)[OF c] and len = countedD(3)[OF c]
  let ?ps = "map instance_ptr (handles w)"
  have ips: "i < length ?ps" using i by simp
  have psi: "?ps ! i = q" using i q(1) by simp
  have "count_list ?ps q \<noteq> 0" using count_list_nth[OF ips] psi by simp
  then have hq: "holders w q \<noteq> 0" by (simp add: holders_eq[OF qu])
  from t q(2) hq obtain obj where live: "store (container w) q = Some obj"
    and u: "unat (refcount obj) = holders w q" and r0: "refcount obj \<noteq> 0"
    by (rule tally_live)
  let ?s1 = "(container w)\<lparr>store := (store (container w))(q := if refcount obj = 1 then None
                else Some (obj\<lparr>refcount := refcount obj - 1\<rparr>))\<rparr>"
  let ?w1 = "\<lparr>container = ?s1, handles = (handles w)[i := \<lparr>instance_ptr = 0\<rparr>]\<rparr>"
  have rid: "getRidOfPointer q (container w) = Inr ?s1"
    using q(2) live by (rule getRidOfPointer_live)
  have ps1: "map instance_ptr (handles ?w1) = ?ps[i := 0]" by (simp add: map_update)
  have cnt: "count_list (?ps[i := 0]) p + (if p = q then 1 else 0) = count_list ?ps p"
    if "p \<noteq> 0" for p
    using count_list_update[OF ips, of 0 p] that psi by (simp split: if_splits)
  have q1: "quiescent (container ?w1)"
  proof (cases "q = addressAndCopyCounter (container w)")
    case True
    have "holders w q = count_list ?ps q + 1" using True by (simp add: holders_eq[OF qu])
    with \<open>count_list ?ps q \<noteq> 0\<close> u have two: "2 \<le> unat (refcount obj)" by simp
    then have "refcount obj \<noteq> 1" by auto
    moreover have "unat (refcount obj - 1) = unat (refcount obj) - 1"
      using r0 by (rule unat_decrement)
    then have "0 < unat (refcount obj - 1)" using two by simp
    then have "refcount obj - 1 \<noteq> 0" by (simp add: unat_gt_0)
    ultimately show ?thesis using qu True by (simp add: quiescent_def)
  next
    case False
    with qu show ?thesis by (simp add: quiescent_def)
  qed
  have "tally ((store (container w))(q := if refcount obj = 1 then None
                else Some (obj\<lparr>refcount := refcount obj - 1\<rparr>))) (holders ?w1)"
    using t q(2) live
  proof (rule tally_decrement)
    fix p :: "64 word"
    assume "p \<noteq> 0"
    from cnt[OF this] show "holders ?w1 p + (if p = q then 1 else 0) = holders w p"
      unfolding holders_eq[OF q1] holders_eq[OF qu] ps1 by simp
  qed
  with q1 c q(2) have "counted ?w1" by (simp add: counted_def)
  with live rid show ?thesis by (rule that)
qed


lemma handle_eq: "(h :: CopyOnWriteStateReference) = \<lparr>instance_ptr = instance_ptr h\<rparr>"
  by (cases h) simp

lemma handle_update: "(h :: CopyOnWriteStateReference)\<lparr>instance_ptr := q\<rparr> = \<lparr>instance_ptr = q\<rparr>"
  by (cases h) simp

lemma world_eq: "\<lparr>container = container w, handles = handles w\<rparr> = (w :: 'a world)"
  by (cases w) simp

lemma counted_bound_live:
  assumes "counted w" and "i < length (handles w)" and "instance_ptr (handles w ! i) \<noteq> 0"
  obtains obj where "store (container w) (instance_ptr (handles w ! i)) = Some obj"
  using counted_release[OF assms(1,2) refl assms(3)] by blast

subsection \<open>Each operation keeps the count\<close>

lemma counted_after_acquire_new:
  assumes c: "counted w" and a: "length (handles w) + 2 < 2 ^ 64"
    and q: "q \<noteq> 0" and live: "store (container w) q = Some obj"
  shows "counted \<lparr>container = (container w)\<lparr>store := (store (container w))(q \<mapsto> obj\<lparr>refcount := refcount obj + 1\<rparr>)\<rparr>,
                  handles = handles w @ [\<lparr>instance_ptr = q\<rparr>]\<rparr>"
proof -
  let ?w0 = "\<lparr>container = container w, handles = handles w @ [\<lparr>instance_ptr = 0\<rparr>]\<rparr>"
  have c0: "counted ?w0" using c a by (rule counted_append_null)
  have "counted \<lparr>container = (container ?w0)\<lparr>store := (store (container ?w0))(q \<mapsto> obj\<lparr>refcount := refcount obj + 1\<rparr>)\<rparr>,
                  handles = (handles ?w0)[length (handles w) := \<lparr>instance_ptr = q\<rparr>]\<rparr>"
    using c0 _ _ q
  proof (rule counted_acquire)
    show "length (handles w) < length (handles ?w0)" by simp
    show "instance_ptr (handles ?w0 ! length (handles w)) = 0" by simp
    show "store (container ?w0) q = Some obj" using live by simp
  qed
  then show ?thesis by simp
qed

lemma step_Get_counted:
  assumes c: "counted w" and a: "admissible Get w" and s: "step construct copy Get w = Some w1"
  shows "counted w1"
proof -
  note qu = countedD(1)[OF c]
  from qu obtain obj where cur: "store (container w) (addressAndCopyCounter (container w)) = Some obj"
    and low: "lowHalfAddress (addressAndCopyCounter (container w))"
    and nz: "addressAndCopyCounter (container w) \<noteq> 0"
    by (rule quiescentE)
  have "w1 = \<lparr>container = (container w)\<lparr>store := (store (container w))(addressAndCopyCounter (container w) \<mapsto>
                   obj\<lparr>refcount := refcount obj + 1\<rparr>)\<rparr>,
               handles = handles w @ [\<lparr>instance_ptr = addressAndCopyCounter (container w)\<rparr>]\<rparr>"
    using s by (simp add: get_def safeInstance_live[OF low cur])
  moreover have "length (handles w) + 2 < 2 ^ 64" using a by simp
  ultimately show ?thesis using counted_after_acquire_new[OF c _ nz cur] by simp
qed

lemma step_HandleCopy_counted:
  assumes c: "counted w" and a: "admissible (HandleCopy i) w"
    and s: "step construct copy (HandleCopy i) w = Some w1"
  shows "counted w1"
proof -
  from s have i: "i < length (handles w)" by (simp split: if_splits)
  let ?q = "instance_ptr (handles w ! i)"
  from s i have q: "?q \<noteq> 0"
    by (auto simp: CopyOnWriteStateReference_copy_def Let_def)
  from c i q obtain obj where live: "store (container w) ?q = Some obj"
    by (rule counted_bound_live)
  have "w1 = \<lparr>container = (container w)\<lparr>store := (store (container w))(?q \<mapsto> obj\<lparr>refcount := refcount obj + 1\<rparr>)\<rparr>,
               handles = handles w @ [\<lparr>instance_ptr = ?q\<rparr>]\<rparr>"
    using s i q live by (simp add: CopyOnWriteStateReference_copy_def Let_def)
  moreover have "length (handles w) + 2 < 2 ^ 64" using a by simp
  ultimately show ?thesis using counted_after_acquire_new[OF c _ q live] by simp
qed

lemma step_HandleMove_counted:
  assumes c: "counted w" and a: "admissible (HandleMove i) w"
    and s: "step construct copy (HandleMove i) w = Some w1"
  shows "counted w1"
proof -
  from s have i: "i < length (handles w)" by (simp split: if_splits)
  let ?ps = "map instance_ptr (handles w)"
  have ips: "i < length ?ps" using i by simp
  obtain h1 source where m: "CopyOnWriteStateReference_move (handles w ! i) = (h1, source)"
    by (cases "CopyOnWriteStateReference_move (handles w ! i)")
  then have w1: "w1 = \<lparr>container = container w, handles = (handles w)[i := source] @ [h1]\<rparr>"
    using s i by (cases w) simp
  have ptrs: "instance_ptr source = 0" "instance_ptr h1 = ?ps ! i"
    using m i by (auto simp: CopyOnWriteStateReference_move_def split: if_splits)
  show ?thesis
    unfolding w1
  proof (rule counted_handles_cong[OF c])
    show "length ((handles w)[i := source] @ [h1]) + 1 < 2 ^ 64" using a by simp
  next
    fix p :: "64 word"
    assume p: "p \<noteq> 0"
    have "map instance_ptr ((handles w)[i := source] @ [h1]) = ?ps[i := 0] @ [?ps ! i]"
      using ptrs by (simp add: map_update)
    then show "count_list (map instance_ptr ((handles w)[i := source] @ [h1])) p = count_list ?ps p"
      using count_list_update[OF ips, of 0 p] p by (simp split: if_splits)
  qed
qed

lemma step_HandleDestroy_counted:
  assumes c: "counted w" and s: "step construct copy (HandleDestroy i) w = Some w1"
  shows "counted w1"
proof -
  from s have i: "i < length (handles w)" by (simp split: if_splits)
  let ?q = "instance_ptr (handles w ! i)"
  show ?thesis
  proof (cases "?q = 0")
    case True
    then have "w1 = \<lparr>container = container w, handles = take i (handles w) @ drop (Suc i) (handles w)\<rparr>"
      using s i by (simp add: CopyOnWriteStateReference_destructor_def)
    then show ?thesis using counted_remove_null[OF c i True] by simp
  next
    case False
    from counted_release[OF c i refl False] obtain s1
      where rid: "getRidOfPointer ?q (container w) = Inr s1"
        and c1: "counted \<lparr>container = s1, handles = (handles w)[i := \<lparr>instance_ptr = 0\<rparr>]\<rparr>"
      by metis
    have "w1 = \<lparr>container = s1, handles = take i (handles w) @ drop (Suc i) (handles w)\<rparr>"
      using s i False rid by (simp add: CopyOnWriteStateReference_destructor_def)
    moreover have "counted \<lparr>container = s1,
        handles = take i ((handles w)[i := \<lparr>instance_ptr = 0\<rparr>]) @ drop (Suc i) ((handles w)[i := \<lparr>instance_ptr = 0\<rparr>])\<rparr>"
      using counted_remove_null[OF c1, of i] i by simp
    ultimately show ?thesis by simp
  qed
qed


lemma counted_released:
  assumes c: "counted w" and i: "i < length (handles w)"
  obtains s1 where
    "(if instance_ptr (handles w ! i) \<noteq> 0
      then getRidOfPointer (instance_ptr (handles w ! i)) (container w) else Inr (container w)) = Inr s1"
    and "counted \<lparr>container = s1, handles = (handles w)[i := \<lparr>instance_ptr = 0\<rparr>]\<rparr>"
proof (cases "instance_ptr (handles w ! i) = 0")
  case True
  then have "handles w ! i = \<lparr>instance_ptr = 0\<rparr>"
    using handle_eq[of "handles w ! i"] by simp
  then have "(handles w)[i := \<lparr>instance_ptr = 0\<rparr>] = handles w"
    by (metis list_update_id)
  with c True show ?thesis by (intro that[of "container w"]) (simp_all add: world_eq)
next
  case False
  from counted_release[OF c i refl False] obtain s1
    where "getRidOfPointer (instance_ptr (handles w ! i)) (container w) = Inr s1"
      and "counted \<lparr>container = s1, handles = (handles w)[i := \<lparr>instance_ptr = 0\<rparr>]\<rparr>"
    by metis
  with False show ?thesis by (intro that[of s1]) simp_all
qed

lemma step_HandleAssignCopy_counted:
  assumes c: "counted w" and s: "step construct copy (HandleAssignCopy i j) w = Some w1"
  shows "counted w1"
proof -
  from s have i: "i < length (handles w)" and j: "j < length (handles w)"
    by (simp_all split: if_splits)
  let ?q = "instance_ptr (handles w ! j)"
  from counted_released[OF c i] obtain s1 where
    rid: "(if instance_ptr (handles w ! i) \<noteq> 0
      then getRidOfPointer (instance_ptr (handles w ! i)) (container w) else Inr (container w)) = Inr s1"
    and c1: "counted \<lparr>container = s1, handles = (handles w)[i := \<lparr>instance_ptr = 0\<rparr>]\<rparr>"
    by blast
  let ?w0 = "\<lparr>container = s1, handles = (handles w)[i := \<lparr>instance_ptr = 0\<rparr>]\<rparr>"
  show ?thesis
  proof (cases "?q = 0")
    case True
    then have "w1 = ?w0"
      using s i j rid by (auto simp: CopyOnWriteStateReference_assign_copy_def Let_def handle_update)
    with c1 show ?thesis by simp
  next
    case False
    from s i j rid False obtain obj where live: "store s1 ?q = Some obj"
      by (cases "store s1 ?q") (simp_all add: CopyOnWriteStateReference_assign_copy_def Let_def handle_update)
    have "w1 = \<lparr>container = s1\<lparr>store := (store s1)(?q \<mapsto> obj\<lparr>refcount := refcount obj + 1\<rparr>)\<rparr>,
                 handles = (handles w)[i := \<lparr>instance_ptr = ?q\<rparr>]\<rparr>"
      using s i j rid False live
      by (auto simp: CopyOnWriteStateReference_assign_copy_def Let_def handle_update)
    moreover have "counted \<lparr>container = (container ?w0)\<lparr>store := (store (container ?w0))(?q \<mapsto> obj\<lparr>refcount := refcount obj + 1\<rparr>)\<rparr>,
                  handles = (handles ?w0)[i := \<lparr>instance_ptr = ?q\<rparr>]\<rparr>"
      using c1 _ _ False
    proof (rule counted_acquire)
      show "i < length (handles ?w0)" using i by simp
      show "instance_ptr (handles ?w0 ! i) = 0" using i by simp
      show "store (container ?w0) ?q = Some obj" using live by simp
    qed
    ultimately show ?thesis by simp
  qed
qed

lemma step_HandleAssignMove_counted:
  assumes c: "counted w" and s: "step construct copy (HandleAssignMove i j) w = Some w1"
  shows "counted w1"
proof -
  from s have i: "i < length (handles w)" and j: "j < length (handles w)"
    by (simp_all split: if_splits)
  let ?ps = "map instance_ptr (handles w)"
  let ?q = "instance_ptr (handles w ! j)"
  from counted_released[OF c i] obtain s1 where
    rid: "(if instance_ptr (handles w ! i) \<noteq> 0
      then getRidOfPointer (instance_ptr (handles w ! i)) (container w) else Inr (container w)) = Inr s1"
    and c1: "counted \<lparr>container = s1, handles = (handles w)[i := \<lparr>instance_ptr = 0\<rparr>]\<rparr>"
    by blast
  let ?w0 = "\<lparr>container = s1, handles = (handles w)[i := \<lparr>instance_ptr = 0\<rparr>]\<rparr>"
  let ?hs1 = "(handles w)[i := \<lparr>instance_ptr = ?q\<rparr>, j := \<lparr>instance_ptr = 0\<rparr>]"
  have w1: "w1 = \<lparr>container = s1, handles = ?hs1\<rparr>"
    using s i j rid
    by (auto simp: CopyOnWriteStateReference_assign_move_def handle_update)
  have "counted \<lparr>container = container ?w0, handles = ?hs1\<rparr>"
  proof (rule counted_handles_cong[OF c1])
    show "length ?hs1 + 1 < 2 ^ 64" using countedD(3)[OF c] by simp
  next
    fix p :: "64 word"
    assume p: "p \<noteq> 0"
    have m1: "map instance_ptr ?hs1 = ?ps[i := ?q, j := 0]" by (simp add: map_update)
    have m0: "map instance_ptr (handles ?w0) = ?ps[i := 0]" by (simp add: map_update)
    have ips: "i < length ?ps" and jps: "j < length ?ps" using i j by simp_all
    show "count_list (map instance_ptr ?hs1) p = count_list (map instance_ptr (handles ?w0)) p"
    proof (cases "i = j")
      case True
      then show ?thesis unfolding m1 m0 by simp
    next
      case False
      have jq: "j < length (?ps[i := ?q])" using j by simp
      have a: "count_list (?ps[i := ?q, j := 0]) p + (if ?q = p then 1 else 0) = count_list (?ps[i := ?q]) p"
        using count_list_update[OF jq, of 0 p] False j p by (simp split: if_splits)
      have b: "count_list (?ps[i := ?q]) p + (if ?ps ! i = p then 1 else 0) = count_list ?ps p + (if ?q = p then 1 else 0)"
        using count_list_update[OF ips, of ?q p] by simp
      have d: "count_list (?ps[i := 0]) p + (if ?ps ! i = p then 1 else 0) = count_list ?ps p"
        using count_list_update[OF ips, of 0 p] p by (simp split: if_splits)
      from a b d show ?thesis unfolding m1 m0 by (simp split: if_splits)
    qed
  qed
  with w1 show ?thesis by simp
qed


lemma counted_published:
  assumes c: "counted w" and f: "lowHalfAddress fresh" "store (container w) fresh = None"
  shows "counted \<lparr>container = published fresh x (container w), handles = handles w\<rparr>"
    (is "counted ?w1")
proof -
  note qu = countedD(1)[OF c] and t = countedD(4)[OF c]
  let ?s = "container w"
  let ?cur = "addressAndCopyCounter ?s"
  from qu obtain obj where cur: "store ?s ?cur = Some obj" and nz: "?cur \<noteq> 0"
    by (rule quiescentE)
  have fz: "fresh \<noteq> 0" using f(1) by (simp add: lowHalfAddress_def)
  have ne: "fresh \<noteq> ?cur" using cur f(2) by auto
  note pe = published_eq[OF qu f(2) cur, of x]
  have q1: "quiescent (container ?w1)"
    using published_quiescent[OF qu f] by simp
  have slot: "addressAndCopyCounter (container ?w1) = fresh"
    using published_slot[OF qu f(2)] by simp
  let ?n1 = "\<lambda>p. holders w p + (if p = fresh then 1 else 0)"
  let ?h1 = "(store ?s)(fresh \<mapsto> \<lparr>refcount = 1, instance_T = x\<rparr>)"
  have t1: "tally ?h1 ?n1"
    using t fz f(2) by (rule tally_new) simp
  have live: "?h1 ?cur = Some obj" using cur ne by simp
  have "tally (?h1(?cur := if refcount obj = 1 then None else Some (obj\<lparr>refcount := refcount obj - 1\<rparr>)))
          (holders ?w1)"
    using t1 nz live
  proof (rule tally_decrement)
    fix p :: "64 word"
    assume "p \<noteq> 0"
    show "holders ?w1 p + (if p = ?cur then 1 else 0) = holders w p + (if p = fresh then 1 else 0)"
      unfolding holders_eq[OF q1] holders_eq[OF qu] slot by auto
  qed
  then have "tally (store (container ?w1)) (holders ?w1)"
    by (simp add: pe)
  moreover have "\<not> editMutex (container ?w1)"
    using countedD(2)[OF c] by (simp add: pe)
  moreover have "store (container ?w1) 0 = None"
    using countedD(5)[OF c] fz nz by (simp add: pe)
  ultimately show ?thesis using q1 countedD(3)[OF c] by (simp add: counted_def)
qed

lemma afterCall_written:
  assumes "afterCall w (written fresh v g (container w)) = Some w1"
  shows "w1 = w \<or> (\<exists>x. w1 = \<lparr>container = published fresh x (container w), handles = handles w\<rparr>)"
proof -
  have same: "w\<lparr>container := container w\<rparr> = w" by simp
  have upd: "\<And>s. w\<lparr>container := s\<rparr> = \<lparr>container = s, handles = handles w\<rparr>"
    by (cases w) simp
  from assms show ?thesis
    by (auto simp: afterCall_def written_def same upd
        split: option.splits sum.splits error.splits if_splits)
qed

lemma step_mutating_written:
  assumes c: "counted w" and a: "admissible op w" and m: "mutating op"
  shows "\<exists>fresh v g. lowHalfAddress fresh \<and> store (container w) fresh = None \<and>
           step construct copy op w = afterCall w (written fresh v g (container w))"
proof -
  note qu = countedD(1)[OF c] and un = countedD(2)[OF c]
  show ?thesis
  proof (cases op)
    case (Emplace fresh args)
    with a have f: "lowHalfAddress fresh" "store (container w) fresh = None" by simp_all
    from Emplace f show ?thesis
      by (intro exI[of _ fresh] exI[of _ "\<lambda>x. Inr True"] exI[of _ "\<lambda>x. andThen (construct args) Inr"])
         (simp add: emplace_written[OF qu un f])
  next
    case (Reset fresh mo ve args)
    with a have f: "lowHalfAddress fresh" "store (container w) fresh = None" by simp_all
    from Reset f show ?thesis
      by (intro exI[of _ fresh] exI[of _ ve] exI[of _ "\<lambda>x. andThen (construct args) mo"])
         (simp add: reset_written[OF qu un f])
  next
    case (TryReset fresh mo ve args)
    with a have f: "lowHalfAddress fresh" "store (container w) fresh = None" by simp_all
    from TryReset f show ?thesis
      by (intro exI[of _ fresh] exI[of _ ve] exI[of _ "\<lambda>x. andThen (construct args) mo"])
         (simp add: tryReset_written[OF qu un f])
  next
    case (Edit fresh mo ve)
    with a have f: "lowHalfAddress fresh" "store (container w) fresh = None" by simp_all
    from Edit f show ?thesis
      by (intro exI[of _ fresh] exI[of _ ve] exI[of _ "\<lambda>x. andThen (copy x) mo"])
         (simp add: edit_written[OF qu un f])
  next
    case (TryEdit fresh mo ve)
    with a have f: "lowHalfAddress fresh" "store (container w) fresh = None" by simp_all
    from TryEdit f show ?thesis
      by (intro exI[of _ fresh] exI[of _ ve] exI[of _ "\<lambda>x. andThen (copy x) mo"])
         (simp add: tryEdit_written[OF qu un f])
  qed (use m in simp_all)
qed

lemma step_mutating_cases:
  assumes c: "counted w" and a: "admissible op w" and m: "mutating op"
    and s: "step construct copy op w = Some w1"
  shows "w1 = w \<or> (\<exists>fresh x. lowHalfAddress fresh \<and> store (container w) fresh = None \<and>
           w1 = \<lparr>container = published fresh x (container w), handles = handles w\<rparr>)"
proof -
  from step_mutating_written[OF c a m, of construct copy] obtain fresh v g
    where f: "lowHalfAddress fresh" "store (container w) fresh = None"
      and e: "step construct copy op w = afterCall w (written fresh v g (container w))"
    by blast
  from afterCall_written[of w fresh v g w1] s e f show ?thesis by auto
qed

lemma step_counted:
  assumes c: "counted w" and a: "admissible op w" and s: "step construct copy op w = Some w1"
  shows "counted w1"
proof (cases "mutating op")
  case True
  from step_mutating_cases[OF c a True s] c show ?thesis
    by (auto intro: counted_published)
next
  case False
  then show ?thesis
  proof (cases op)
    case Get
    with c a s show ?thesis by (auto intro: step_Get_counted)
  next
    case (HandleCopy i)
    with c a s show ?thesis by (auto intro: step_HandleCopy_counted)
  next
    case (HandleMove i)
    with c a s show ?thesis by (auto intro: step_HandleMove_counted)
  next
    case (HandleDestroy i)
    with c a s show ?thesis by (auto intro: step_HandleDestroy_counted)
  next
    case (HandleAssignCopy i j)
    with c a s show ?thesis by (auto intro: step_HandleAssignCopy_counted)
  next
    case (HandleAssignMove i j)
    with c a s show ?thesis by (auto intro: step_HandleAssignMove_counted)
  qed simp_all
qed

lemma constructed_counted:
  assumes "lowHalfAddress fresh" and "CopyOnWrite_constructor fresh construct args Map.empty = Inr s"
  shows "counted \<lparr>container = s, handles = []\<rparr>"
proof -
  from assms(2) obtain x where s: "s = \<lparr>store = [fresh \<mapsto> \<lparr>refcount = 1, instance_T = x\<rparr>],
      addressAndCopyCounter = fresh, previousCopyCounter = 0, editMutex = False\<rparr>"
    by (auto simp: CopyOnWrite_constructor_def split: sum.splits)
  have g: "getPointer fresh = fresh" using assms(1) by (rule getPointer_low)
  have "tally (store s) (holders \<lparr>container = s, handles = []\<rparr>)"
    by (rule tallyI) (simp add: s holders_def g)
  then show ?thesis
    using assms(1) by (auto simp: counted_def quiescent_def s lowHalfAddress_def)
qed

lemma reachable_counted:
  assumes "reachable construct copy w"
  shows "counted w"
  using assms
proof (induction rule: reachable.induct)
  case (constructed fresh args s)
  then show ?case by (rule constructed_counted)
next
  case (stepped w op w1)
  then show ?case by (auto intro: step_counted)
qed



subsection \<open>Handles across writes\<close>

lemma published_keeps_handle:
  assumes c: "counted w" and f: "store (container w) fresh = None"
    and i: "i < length (handles w)"
    and a: "CopyOnWriteStateReference_arrow (handles w ! i) (container w) = Inr x"
  shows "CopyOnWriteStateReference_arrow (handles w ! i) (published fresh y (container w)) = Inr x"
proof -
  note qu = countedD(1)[OF c] and t = countedD(4)[OF c]
  let ?s = "container w"
  let ?cur = "addressAndCopyCounter ?s"
  let ?q = "instance_ptr (handles w ! i)"
  let ?ps = "map instance_ptr (handles w)"
  from a have q: "?q \<noteq> 0"
    by (auto simp: CopyOnWriteStateReference_arrow_def split: if_splits)
  with a obtain obj where live: "store ?s ?q = Some obj" and x: "instance_T obj = x"
    by (auto simp: CopyOnWriteStateReference_arrow_def split: option.splits)
  from qu obtain cobj where cur: "store ?s ?cur = Some cobj" by (rule quiescentE)
  note pe = published_eq[OF qu f cur, of y]
  have ne: "?q \<noteq> fresh" using live f by auto
  show ?thesis
  proof (cases "?q = ?cur")
    case False
    with ne live x q show ?thesis
      by (simp add: pe CopyOnWriteStateReference_arrow_def)
  next
    case True
    have ips: "i < length ?ps" using i by simp
    have "count_list ?ps (?ps ! i) \<noteq> 0" using ips by (rule count_list_nth)
    then have "2 \<le> holders w ?q" using True i by (simp add: holders_eq[OF qu])
    moreover have "unat (refcount obj) = holders w ?q" using t q live by (rule tally_count)
    ultimately have "refcount obj \<noteq> 1" by auto
    moreover have "cobj = obj" using True live cur by simp
    ultimately show ?thesis
      using True ne live x q by (simp add: pe CopyOnWriteStateReference_arrow_def)
  qed
qed

lemma step_mutating_keeps:
  assumes c: "counted w" and a: "admissible op w" and m: "mutating op"
    and s: "step construct copy op w = Some w1"
    and i: "i < length (handles w)"
    and r: "CopyOnWriteStateReference_arrow (handles w ! i) (container w) = Inr x"
  shows "handles w1 = handles w \<and>
         CopyOnWriteStateReference_arrow (handles w1 ! i) (container w1) = Inr x"
  using step_mutating_cases[OF c a m s] r published_keeps_handle[OF c _ i r]
  by auto

lemma run_mutating_keeps:
  assumes "counted w" and "list_all mutating ops" and "run construct copy ops w = Some w1"
    and "i < length (handles w)"
    and "CopyOnWriteStateReference_arrow (handles w ! i) (container w) = Inr x"
  shows "handles w1 = handles w \<and>
         CopyOnWriteStateReference_arrow (handles w1 ! i) (container w1) = Inr x"
  using assms
proof (induction ops arbitrary: w)
  case Nil
  then show ?case by simp
next
  case (Cons op ops)
  from Cons.prems(3) obtain w2 where a: "admissible op w"
    and s: "step construct copy op w = Some w2"
    and rest: "run construct copy ops w2 = Some w1"
    by (auto split: if_splits option.splits)
  from Cons.prems(2) have m: "mutating op" and ms: "list_all mutating ops" by simp_all
  have c2: "counted w2" using Cons.prems(1) a s by (rule step_counted)
  from step_mutating_keeps[OF Cons.prems(1) a m s Cons.prems(4,5)]
  have h: "handles w2 = handles w"
    and r: "CopyOnWriteStateReference_arrow (handles w2 ! i) (container w2) = Inr x" by blast+
  have i2: "i < length (handles w2)" using h Cons.prems(4) by simp
  from Cons.IH[OF c2 ms rest i2 r] show ?case unfolding h .
qed

subsection \<open>The test container with a handle\<close>

lemma tested_held_step: "step TestClass Inr Get \<lparr>container = tested, handles = []\<rparr> = Some tested_held"
proof -
  have low: "lowHalfAddress (addressAndCopyCounter tested)"
    using tested_quiescent by (simp add: quiescent_def)
  have g: "get tested = Inr (\<lparr>instance_ptr = 0x1000\<rparr>,
          tested\<lparr>store := [0x1000 \<mapsto> \<lparr>refcount = 2, instance_T = (3, 0)\<rparr>]\<rparr>)"
    unfolding get_def safeInstance_live[OF low tested_current] by (simp add: tested_def)
  show ?thesis
    apply (simp only: step.simps world.simps)
    apply (simp only: g)
    apply (simp add: tested_held_def)
    done
qed

lemma tested_held_reachable: "reachable TestClass Inr tested_held"
proof -
  have "lowHalfAddress 0x1000" by (simp add: lowHalfAddress_def)
  then have "reachable TestClass Inr \<lparr>container = tested, handles = []\<rparr>"
    using tested_constructed by (rule reachable.constructed)
  then show ?thesis
    by (rule reachable.stepped[OF _ _ tested_held_step]) simp
qed

lemma tested_held_container:
  "quiescent (container tested_held)" "\<not> editMutex (container tested_held)"
  "store (container tested_held) 0x2000 = None"
  "store (container tested_held) (addressAndCopyCounter (container tested_held)) =
     Some \<lparr>refcount = 2, instance_T = (3, 0)\<rparr>"
  by (simp_all add: tested_held_def tested_def quiescent_def lowHalfAddress_def)

lemma tested_held_edit:
  "run TestClass Inr [Edit 0x2000 (\<lambda>y. Inr (4, snd y)) (\<lambda>y. Inr True)] tested_held =
     Some (tested_held\<lparr>container := published 0x2000 (4, 0) (container tested_held)\<rparr>)"
proof -
  have "edit 0x2000 Inr (stateless (\<lambda>y. Inr (4, snd y))) (stateless (\<lambda>y. Inr True)) (container tested_held) =
        Some (Inr True, published 0x2000 (4, 0) (container tested_held))"
    unfolding edit_written[OF tested_held_container(1,2) tested_fresh(1) tested_held_container(3)]
    by (simp add: written_def tested_held_container(4) andThen_def)
  then show ?thesis
    by (simp add: afterCall_def tested_fresh(1) tested_held_container(3))
qed

subsection \<open>Tearing the container down\<close>

lemma destructor_counts:
  assumes "quiescent s"
    and "store s (addressAndCopyCounter s) = Some obj" and "refcount obj = 1"
  shows
    "\<exists>s1 s2. safeInstance s = Inr (addressAndCopyCounter s, s1) \<and>
        map_option refcount (store s1 (addressAndCopyCounter s)) = Some 2 \<and>
        getRidOfPointer (addressAndCopyCounter s) s1 = Inr s2 \<and>
        map_option refcount (store s2 (addressAndCopyCounter s)) = Some 1 \<and>
        getRidOfPointer (addressAndCopyCounter s) s2 =
          Inr (s\<lparr>store := (store s)(addressAndCopyCounter s := None)\<rparr>) \<and>
        CopyOnWrite_destructor s = Inr (s\<lparr>store := (store s)(addressAndCopyCounter s := None)\<rparr>)"
proof -
  let ?p = "addressAndCopyCounter s"
  from assms(1) have low: "lowHalfAddress ?p" by (simp add: quiescent_def)
  then have nz: "?p \<noteq> 0" by (simp add: lowHalfAddress_def)
  let ?s1 = "s\<lparr>store := (store s)(?p \<mapsto> obj\<lparr>refcount := refcount obj + 1\<rparr>)\<rparr>"
  have a: "safeInstance s = Inr (?p, ?s1)"
    using low assms(2) by (rule safeInstance_live)
  have r0: "refcount obj \<noteq> 0" using assms(3) by simp
  have b: "getRidOfPointer ?p ?s1 = Inr s"
    using nz r0 assms(2) by (rule getRidOfPointer_after_increment)
  have c: "getRidOfPointer ?p s = Inr (s\<lparr>store := (store s)(?p := None)\<rparr>)"
    using getRidOfPointer_live[OF nz assms(2)] assms(3) by simp
  have "CopyOnWrite_destructor s = Inr (s\<lparr>store := (store s)(?p := None)\<rparr>)"
    unfolding CopyOnWrite_destructor_def a by (simp add: b c)
  with a b c assms(2,3) show ?thesis by simp
qed

lemma unheld_holders:
  assumes c: "counted w" and e: "\<forall>h \<in> set (handles w). instance_ptr h = 0" and p: "p \<noteq> 0"
  shows "holders w p = (if p = addressAndCopyCounter (container w) then 1 else 0)"
proof -
  have "p \<notin> set (map instance_ptr (handles w))" using e p by auto
  then have "count_list (map instance_ptr (handles w)) p = 0" by (rule count_notin)
  then show ?thesis by (auto simp: holders_eq[OF countedD(1)[OF c]])
qed

lemma unheld_store:
  assumes c: "counted w" and e: "\<forall>h \<in> set (handles w). instance_ptr h = 0"
  shows "(store (container w))(addressAndCopyCounter (container w) := None) = Map.empty"
proof (rule ext)
  fix p :: "64 word"
  show "((store (container w))(addressAndCopyCounter (container w) := None)) p = Map.empty p"
  proof (cases "p = 0 \<or> p = addressAndCopyCounter (container w)")
    case True
    then show ?thesis using countedD(5)[OF c] by auto
  next
    case False
    then have "holders w p = 0" using unheld_holders[OF c e, of p] by simp
    with tallyD[OF countedD(4)[OF c], of p] False show ?thesis
      by (cases "store (container w) p") simp_all
  qed
qed

subsection \<open>Two hazards the header leaves to the caller\<close>

text \<open>
  A blocking write called while the mutex is held, as from a callback of a write on the
  same container, never returns. Copy-assigning a handle to itself when it holds the
  last reference releases the snapshot and then increments the count of the dead object.
\<close>

lemma blocking_call_under_lock:
  assumes "editMutex s"
  shows "emplace fresh construct args s = None"
    and "reset fresh construct modifier verifier args s = None"
    and "edit fresh copy modifier verifier s = None"
  using assms by (simp_all add: emplace_def reset_def edit_def lock_guard_held)

lemma self_assignment_of_last_reference:
  assumes "instance_ptr h \<noteq> 0" and "store s (instance_ptr h) = Some obj" and "refcount obj = 1"
  shows "CopyOnWriteStateReference_assign_copy h h s = Inl InvalidPointer"
  using assms
  by (simp add: CopyOnWriteStateReference_assign_copy_def getRidOfPointer_def Let_def)

section \<open>The claims\<close>

text \<open>
  \<^bold>\<open>C1.\<close> Let the container be at rest with current payload \<open>x\<close>, and let the
  modifier \<open>f\<close> and the predicate \<open>P\<close> be functions of the payload. If \<open>P\<close>
  rejects \<open>x\<close>, then \<open>edit\<close> and \<open>reset\<close> return false and leave the whole state,
  and with it the published payload, as it was. If \<open>P\<close> accepts \<open>x\<close>, they return
  true and the payload read afterwards is \<open>f\<close> applied once to the new payload: to the
  copy \<open>c\<close> of \<open>x\<close> for \<open>edit\<close>, to the freshly constructed \<open>n\<close> for \<open>reset\<close>.
\<close>

theorem edit_reset_predicate:
  fixes f :: "'a \<Rightarrow> 'a" and P :: "'a \<Rightarrow> bool"
  assumes "quiescent s" and "\<not> editMutex s"
    and "lowHalfAddress fresh" and "store s fresh = None"
    and "CopyOnWrite_arrow s = Inr (x, s)"
    and "copy x = Inr c" and "construct args = Inr n"
  shows "(\<not> P x \<longrightarrow>
            edit fresh copy (stateless (\<lambda>y. Inr (f y))) (stateless (\<lambda>y. Inr (P y))) s = Some (Inr False, s) \<and>
            reset fresh construct (stateless (\<lambda>y. Inr (f y))) (stateless (\<lambda>y. Inr (P y))) args s = Some (Inr False, s)) \<and>
         (P x \<longrightarrow>
            (\<exists>s1. edit fresh copy (stateless (\<lambda>y. Inr (f y))) (stateless (\<lambda>y. Inr (P y))) s = Some (Inr True, s1) \<and>
                  CopyOnWrite_arrow s1 = Inr (f c, s1)) \<and>
            (\<exists>s1. reset fresh construct (stateless (\<lambda>y. Inr (f y))) (stateless (\<lambda>y. Inr (P y))) args s = Some (Inr True, s1) \<and>
                  CopyOnWrite_arrow s1 = Inr (f n, s1)))"
proof -
  from quiescent_current[OF assms(1,5)] obtain obj
    where cur: "store s (addressAndCopyCounter s) = Some obj" and x: "x = instance_T obj" by blast
  note e = edit_written[OF assms(1-4)] and r = reset_written[OF assms(1-4)]
  note arrow = published_arrow[OF assms(1,3,4)]
  show ?thesis
  proof (cases "P x")
    case False
    then show ?thesis
      unfolding e r using cur x by (simp add: written_reject)
  next
    case True
    have "written fresh (\<lambda>y. Inr (P y)) (\<lambda>x. andThen (copy x) (\<lambda>y. Inr (f y))) s = Some (Inr True, published fresh (f c) s)"
      using cur True assms(6) unfolding x by (simp add: written_def andThen_def)
    moreover have "written fresh (\<lambda>y. Inr (P y)) (\<lambda>x. andThen (construct args) (\<lambda>y. Inr (f y))) s = Some (Inr True, published fresh (f n) s)"
      using cur True assms(7) unfolding x by (simp add: written_def andThen_def)
    ultimately show ?thesis
      unfolding e r using True arrow by simp
  qed
qed

theorem edit_reset_predicate_witness:
  "edit 0x2000 Inr (stateless (\<lambda>y. Inr (4, snd y))) (stateless (\<lambda>y. Inr (fst y = 4))) tested
     = Some (Inr False, tested) \<and>
   (\<exists>s1. edit 0x2000 Inr (stateless (\<lambda>y. Inr (4, snd y))) (stateless (\<lambda>y. Inr (fst y = 3))) tested
            = Some (Inr True, s1) \<and>
         CopyOnWrite_arrow s1 = Inr ((4, 0), s1)) \<and>
   (\<exists>s1. reset 0x2000 TestClass (stateless (\<lambda>y. Inr (4, snd y))) (stateless (\<lambda>y. Inr (fst y = 3))) 7 tested
            = Some (Inr True, s1) \<and>
         CopyOnWrite_arrow s1 = Inr ((4, 0), s1))"
  using
    edit_reset_predicate[where s = tested and fresh = "0x2000" and x = "(3, 0)" and copy = Inr
      and c = "(3, 0)" and construct = TestClass and args = 7 and n = "(7, 0)"
      and P = "\<lambda>y. fst y = 4" and f = "\<lambda>y. (4, snd y)"]
    edit_reset_predicate[where s = tested and fresh = "0x2000" and x = "(3, 0)" and copy = Inr
      and c = "(3, 0)" and construct = TestClass and args = 7 and n = "(7, 0)"
      and P = "\<lambda>y. fst y = 3" and f = "\<lambda>y. (4, snd y)"]
    tested_quiescent tested_unlocked tested_fresh tested_arrow
  by (simp add: TestClass_def)



text \<open>
  \<^bold>\<open>C4.\<close> Take a reachable world and a handle of it through which the payload
  \<open>x\<close> is read. After any sequence of mutating operations (\<open>emplace\<close>, \<open>reset\<close>,
  \<open>tryReset\<close>, \<open>edit\<close>, \<open>tryEdit\<close>, whatever each returns), the handles are the
  same and the payload read through that handle is still \<open>x\<close>: its snapshot is alive
  and no operation has written to it.
\<close>

theorem handle_payload_survives_writes:
  assumes "reachable construct copy w" and "i < length (handles w)"
    and "CopyOnWriteStateReference_arrow (handles w ! i) (container w) = Inr x"
    and "list_all mutating ops" and "run construct copy ops w = Some w1"
  shows "handles w1 = handles w \<and>
         CopyOnWriteStateReference_arrow (handles w1 ! i) (container w1) = Inr x"
  using reachable_counted[OF assms(1)] assms(4,5,2,3) by (rule run_mutating_keeps)

theorem handle_payload_survives_writes_witness:
  "\<exists>w1. run TestClass Inr [Edit 0x2000 (\<lambda>y. Inr (4, snd y)) (\<lambda>y. Inr True)] tested_held = Some w1 \<and>
      CopyOnWriteStateReference_arrow (handles w1 ! 0) (container w1) = Inr (3, 0) \<and>
      CopyOnWrite_arrow (container w1) = Inr ((4, 0), container w1)"
proof -
  let ?w1 = "tested_held\<lparr>container := published 0x2000 (4, 0) (container tested_held)\<rparr>"
  have i: "0 < length (handles tested_held)" by (simp add: tested_held_def)
  have r: "CopyOnWriteStateReference_arrow (handles tested_held ! 0) (container tested_held) = Inr (3, 0)"
    by (simp add: CopyOnWriteStateReference_arrow_def tested_held_def)
  have m: "list_all mutating [Edit 0x2000 (\<lambda>y. Inr (4, snd y)) (\<lambda>y :: int \<times> int. Inr True) :: (int \<times> int, int) operation]"
    by simp
  from handle_payload_survives_writes[OF tested_held_reachable i r m tested_held_edit]
  have "CopyOnWriteStateReference_arrow (handles ?w1 ! 0) (container ?w1) = Inr (3, 0)" by blast
  moreover have "CopyOnWrite_arrow (container ?w1) = Inr ((4, 0), container ?w1)"
    using published_arrow[OF tested_held_container(1) tested_fresh(1) tested_held_container(3)] by simp
  ultimately show ?thesis using tested_held_edit by blast
qed

text \<open>
  \<^bold>\<open>C5.\<close> For a handle bound to a live snapshot \<open>obj\<close> with a non-zero count:
  copy construction returns a handle to the same snapshot and adds one to its count (the
  addition of \<^verbatim>\<open>std::atomic_size_t\<close>); destroying either the copy or the original
  afterwards takes that one back, giving the state before the copy; destroying a handle
  subtracts one and deallocates at zero. Move construction returns a handle to the same
  snapshot without touching the state and leaves the source empty, and destroying the
  empty source changes nothing.
\<close>

theorem handle_copy_and_move:
  assumes "instance_ptr h \<noteq> 0" and "store s (instance_ptr h) = Some obj" and "refcount obj \<noteq> 0"
  shows
    "(\<exists>h1 s1. CopyOnWriteStateReference_copy h s = Inr (h1, s1) \<and>
        instance_ptr h1 = instance_ptr h \<and>
        s1 = s\<lparr>store := (store s)(instance_ptr h \<mapsto> obj\<lparr>refcount := refcount obj + 1\<rparr>)\<rparr> \<and>
        CopyOnWriteStateReference_destructor h1 s1 = Inr s \<and>
        CopyOnWriteStateReference_destructor h s1 = Inr s) \<and>
     CopyOnWriteStateReference_destructor h s =
        Inr (s\<lparr>store := (store s)(instance_ptr h := if refcount obj = 1 then None
                                     else Some (obj\<lparr>refcount := refcount obj - 1\<rparr>))\<rparr>) \<and>
     (\<exists>h1 source. CopyOnWriteStateReference_move h = (h1, source) \<and>
        instance_ptr h1 = instance_ptr h \<and> instance_ptr source = 0 \<and>
        CopyOnWriteStateReference_destructor source s = Inr s)"
proof -
  let ?s1 = "s\<lparr>store := (store s)(instance_ptr h \<mapsto> obj\<lparr>refcount := refcount obj + 1\<rparr>)\<rparr>"
  have c: "CopyOnWriteStateReference_copy h s = Inr (\<lparr>instance_ptr = instance_ptr h\<rparr>, ?s1)"
    using assms(1,2) by (simp add: CopyOnWriteStateReference_copy_def Let_def)
  have d: "getRidOfPointer (instance_ptr h) ?s1 = Inr s"
    using assms(1,3,2) by (rule getRidOfPointer_after_increment)
  have e: "getRidOfPointer (instance_ptr h) s =
        Inr (s\<lparr>store := (store s)(instance_ptr h := if refcount obj = 1 then None
                                     else Some (obj\<lparr>refcount := refcount obj - 1\<rparr>))\<rparr>)"
    using assms(1,2) by (rule getRidOfPointer_live)
  show ?thesis
    unfolding c using assms(1) d e
    by (simp add: CopyOnWriteStateReference_destructor_def CopyOnWriteStateReference_move_def)
qed

theorem handle_copy_and_move_witness:
  "\<exists>h1 s1. CopyOnWriteStateReference_copy \<lparr>instance_ptr = 0x1000\<rparr> tested = Inr (h1, s1) \<and>
      instance_ptr h1 = 0x1000 \<and>
      map_option refcount (store s1 0x1000) = Some 2 \<and>
      CopyOnWriteStateReference_destructor h1 s1 = Inr tested"
  using handle_copy_and_move[where h = "\<lparr>instance_ptr = 0x1000\<rparr>" and s = tested
      and obj = "\<lparr>refcount = 1, instance_T = (3, 0)\<rparr>"]
  by (auto simp: tested_def)

text \<open>
  \<^bold>\<open>C6.\<close> While the mutex is held, \<open>tryEdit\<close> and \<open>tryReset\<close> return false and
  leave the state as it is; in particular they return. A callback of a write operation
  runs while that operation holds the mutex: every write operation does the same with a
  verifier as with the verifier under \<open>underLock\<close>, and the same with a modifier as with
  the modifier under \<open>underLock\<close> provided the verifier, started with the mutex held,
  returns with the mutex held.
\<close>

theorem reentrant_nonblocking_write_fails:
  "(editMutex s \<longrightarrow>
      tryEdit fresh copy modifier verifier s = Some (Inr False, s) \<and>
      tryReset fresh construct modifier verifier args s = Some (Inr False, s)) \<and>
   edit fresh copy modifier (underLock verifier) s = edit fresh copy modifier verifier s \<and>
   tryEdit fresh copy modifier (underLock verifier) s = tryEdit fresh copy modifier verifier s \<and>
   reset fresh construct modifier (underLock verifier) args s = reset fresh construct modifier verifier args s \<and>
   tryReset fresh construct modifier (underLock verifier) args s = tryReset fresh construct modifier verifier args s \<and>
   ((\<forall>x t r t1. editMutex t \<longrightarrow> verifier x t = Some (r, t1) \<longrightarrow> editMutex t1) \<longrightarrow>
      edit fresh copy (underLock modifier) verifier s = edit fresh copy modifier verifier s \<and>
      tryEdit fresh copy (underLock modifier) verifier s = tryEdit fresh copy modifier verifier s \<and>
      reset fresh construct (underLock modifier) verifier args s = reset fresh construct modifier verifier args s \<and>
      tryReset fresh construct (underLock modifier) verifier args s = tryReset fresh construct modifier verifier args s)"
proof -
  have v: "\<And>creator. replace creator (underLock verifier) (s\<lparr>editMutex := True\<rparr>) =
                       replace creator verifier (s\<lparr>editMutex := True\<rparr>)"
    by (rule replace_verifier_underLock) simp
  have m: "\<And>built. (\<forall>x t r t1. editMutex t \<longrightarrow> verifier x t = Some (r, t1) \<longrightarrow> editMutex t1) \<Longrightarrow>
      replace (TakesOld (\<lambda>old. modifiedDuplicate fresh (built old) (underLock modifier))) verifier (s\<lparr>editMutex := True\<rparr>) =
      replace (TakesOld (\<lambda>old. modifiedDuplicate fresh (built old) modifier)) verifier (s\<lparr>editMutex := True\<rparr>)"
    by (rule replace_creator_underLock)
       (simp_all add: modifiedDuplicate_underLock cong: option.case_cong)
  have n: "\<And>built. (\<forall>x t r t1. editMutex t \<longrightarrow> verifier x t = Some (r, t1) \<longrightarrow> editMutex t1) \<Longrightarrow>
      replace (TakesNothing (modifiedDuplicate fresh built (underLock modifier))) verifier (s\<lparr>editMutex := True\<rparr>) =
      replace (TakesNothing (modifiedDuplicate fresh built modifier)) verifier (s\<lparr>editMutex := True\<rparr>)"
    by (rule replace_creator_underLock) (simp_all add: modifiedDuplicate_underLock)
  show ?thesis
    by (simp add: tryEdit_contended tryReset_contended edit_def tryEdit_def reset_def tryReset_def
        lock_guard_def try_to_lock_def replaceWithModifiedCopy_def replaceWithNew_def v m n)
qed

theorem reentrant_nonblocking_write_fails_witness:
  "tryEdit 0x3000 Inr (stateless (\<lambda>y. Inr (fst y, 3))) AlwaysPassingVerifier (tested\<lparr>editMutex := True\<rparr>)
     = Some (Inr False, tested\<lparr>editMutex := True\<rparr>) \<and>
   tryReset 0x3000 TestClass (stateless (\<lambda>y. Inr (fst y, 3))) AlwaysPassingVerifier 7 (tested\<lparr>editMutex := True\<rparr>)
     = Some (Inr False, tested\<lparr>editMutex := True\<rparr>) \<and>
   edit 0x2000 Inr (underLock (stateless (\<lambda>y. Inr (fst y, 4)))) AlwaysPassingVerifier tested
     = edit 0x2000 Inr (stateless (\<lambda>y. Inr (fst y, 4))) AlwaysPassingVerifier tested"
proof -
  have keeps: "\<forall>x t r t1. editMutex t \<longrightarrow> AlwaysPassingVerifier x t = Some (r, t1) \<longrightarrow> editMutex t1"
    by (simp add: AlwaysPassingVerifier_def)
  note inner = reentrant_nonblocking_write_fails[where s = "tested\<lparr>editMutex := True\<rparr>"
      and fresh = "0x3000" and copy = Inr and construct = TestClass and args = 7
      and modifier = "stateless (\<lambda>y. Inr (fst y, 3))" and verifier = AlwaysPassingVerifier]
  note outer = reentrant_nonblocking_write_fails[where s = tested
      and fresh = "0x2000" and copy = Inr and construct = TestClass and args = 7
      and modifier = "stateless (\<lambda>y. Inr (fst y, 4))" and verifier = AlwaysPassingVerifier]
  from inner have "tryEdit 0x3000 Inr (stateless (\<lambda>y. Inr (fst y, 3))) AlwaysPassingVerifier (tested\<lparr>editMutex := True\<rparr>)
     = Some (Inr False, tested\<lparr>editMutex := True\<rparr>) \<and>
   tryReset 0x3000 TestClass (stateless (\<lambda>y. Inr (fst y, 3))) AlwaysPassingVerifier 7 (tested\<lparr>editMutex := True\<rparr>)
     = Some (Inr False, tested\<lparr>editMutex := True\<rparr>)"
    by simp
  moreover from outer keeps
  have "edit 0x2000 Inr (underLock (stateless (\<lambda>y. Inr (fst y, 4)))) AlwaysPassingVerifier tested
     = edit 0x2000 Inr (stateless (\<lambda>y. Inr (fst y, 4))) AlwaysPassingVerifier tested"
    by blast
  ultimately show ?thesis by blast
qed

text \<open>
  \<^bold>\<open>C7.\<close> Let the container be at rest with the mutex free, and let the verifier
  accept the current payload \<open>x\<close>. If the constructor of the payload throws \<open>e\<close>
  (\<open>emplace\<close>, \<open>reset\<close>, \<open>tryReset\<close>), or the copy constructor does (\<open>edit\<close>,
  \<open>tryEdit\<close>), or the modifier does on the payload just built, then the operation ends
  with the exception \<open>e\<close> and the state is the one before the call: the slot and the
  old snapshot are untouched, the free store holds no replacement, the mutex is free.
\<close>

theorem failed_build_publishes_nothing:
  assumes "quiescent s" and "\<not> editMutex s"
    and "lowHalfAddress fresh" and "store s fresh = None"
    and "CopyOnWrite_arrow s = Inr (x, s)"
    and "v x = Inr True"
  shows
    "(construct args = Inl e \<longrightarrow>
        emplace fresh construct args s = Some (Inl e, s) \<and>
        reset fresh construct (stateless m) (stateless v) args s = Some (Inl e, s) \<and>
        tryReset fresh construct (stateless m) (stateless v) args s = Some (Inl e, s)) \<and>
     (construct args = Inr n \<and> m n = Inl e \<longrightarrow>
        reset fresh construct (stateless m) (stateless v) args s = Some (Inl e, s) \<and>
        tryReset fresh construct (stateless m) (stateless v) args s = Some (Inl e, s)) \<and>
     (copy x = Inl e \<longrightarrow>
        edit fresh copy (stateless m) (stateless v) s = Some (Inl e, s) \<and>
        tryEdit fresh copy (stateless m) (stateless v) s = Some (Inl e, s)) \<and>
     (copy x = Inr c \<and> m c = Inl e \<longrightarrow>
        edit fresh copy (stateless m) (stateless v) s = Some (Inl e, s) \<and>
        tryEdit fresh copy (stateless m) (stateless v) s = Some (Inl e, s))"
proof -
  from quiescent_current[OF assms(1,5)] obtain obj
    where cur: "store s (addressAndCopyCounter s) = Some obj" and x: "x = instance_T obj" by blast
  note w = emplace_written[OF assms(1-4)] reset_written[OF assms(1-4)]
    tryReset_written[OF assms(1-4)] edit_written[OF assms(1-4)] tryEdit_written[OF assms(1-4)]
  show ?thesis
    unfolding w using cur assms(6) unfolding x
    by (simp add: written_def andThen_def)
qed

theorem failed_build_publishes_nothing_witness:
  "edit 0x2000 Inr (stateless (\<lambda>y. Inl (Exception 1))) (stateless (\<lambda>y. Inr True)) tested
     = Some (Inl (Exception 1), tested) \<and>
   emplace 0x2000 (\<lambda>a. Inl (Exception 2)) (6 :: int) tested = Some (Inl (Exception 2), tested)"
  using
    failed_build_publishes_nothing[where s = tested and fresh = "0x2000" and x = "(3, 0)"
      and v = "\<lambda>y. Inr True" and copy = Inr and c = "(3, 0)" and m = "\<lambda>y. Inl (Exception 1)"
      and e = "Exception 1" and construct = TestClass and args = 7 and n = "(7, 0)"]
    failed_build_publishes_nothing[where s = tested and fresh = "0x2000" and x = "(3, 0)"
      and v = "\<lambda>y. Inr True" and copy = Inr and c = "(3, 0)" and m = Inr
      and e = "Exception 2" and construct = "\<lambda>a :: int. Inl (Exception 2)" and args = 6 and n = "(7, 0)"]
    tested_quiescent tested_unlocked tested_fresh tested_arrow
  by simp

text \<open>
  \<^bold>\<open>C8.\<close> Take a reachable world, which is between operations, in which every
  handle is empty. Then the current snapshot has the count 1 and the destructor acquires
  one reference (count 2), releases it (count 1) and releases once more: the second
  release deallocates the snapshot and leaves the free store empty. No release fails, so
  nothing is freed twice, and nothing is left behind.
\<close>

theorem destructor_drains_final_snapshot:
  assumes "reachable construct copy w" and "\<forall>h \<in> set (handles w). instance_ptr h = 0"
  shows
    "\<exists>s1 s2 s3. safeInstance (container w) = Inr (addressAndCopyCounter (container w), s1) \<and>
        map_option refcount (store s1 (addressAndCopyCounter (container w))) = Some 2 \<and>
        getRidOfPointer (addressAndCopyCounter (container w)) s1 = Inr s2 \<and>
        map_option refcount (store s2 (addressAndCopyCounter (container w))) = Some 1 \<and>
        getRidOfPointer (addressAndCopyCounter (container w)) s2 = Inr s3 \<and>
        store s3 = Map.empty \<and>
        CopyOnWrite_destructor (container w) = Inr s3"
proof -
  from assms(1) have c: "counted w" by (rule reachable_counted)
  note qu = countedD(1)[OF c]
  let ?p = "addressAndCopyCounter (container w)"
  from qu obtain obj where cur: "store (container w) ?p = Some obj" and nz: "?p \<noteq> 0"
    by (rule quiescentE)
  have "holders w ?p = 1" using unheld_holders[OF c assms(2) nz] by simp
  moreover have "unat (refcount obj) = holders w ?p"
    using countedD(4)[OF c] nz cur by (rule tally_count)
  ultimately have "unat (refcount obj) = 1" by simp
  then have one: "refcount obj = 1" by (simp only: unat_one_iff)
  from destructor_counts[OF qu cur one] unheld_store[OF c assms(2)]
  show ?thesis by auto
qed

theorem destructor_drains_final_snapshot_witness:
  "handles \<lparr>container = tested, handles = []\<rparr> = [] \<and>
   (\<exists>s3. CopyOnWrite_destructor tested = Inr s3 \<and> store s3 = Map.empty)"
proof -
  have "lowHalfAddress 0x1000" by (simp add: lowHalfAddress_def)
  then have r: "reachable TestClass Inr \<lparr>container = tested, handles = []\<rparr>"
    using tested_constructed by (rule reachable.constructed)
  have e: "\<forall>h \<in> set (handles \<lparr>container = tested, handles = []\<rparr>). instance_ptr h = 0" by simp
  from destructor_drains_final_snapshot[OF r e] e show ?thesis by auto
qed

text \<open>
  \<^bold>\<open>C9.\<close> In every world a sequential program reaches by public operations, and
  for every non-null address \<open>p\<close>: the snapshot at \<open>p\<close> is deallocated exactly when
  \<open>p\<close> has no holder, and the count of a live snapshot is its number of holders, that
  is, the number of handles bound to it plus one if the slot holds it. An operation with
  undefined behaviour (C10) or that does not return has no next world.
\<close>

theorem strong_count_equals_holders:
  assumes "reachable construct copy w" and "p \<noteq> 0"
  shows "(store (container w) p = None \<longleftrightarrow> holders w p = 0) \<and>
         (\<forall>obj. store (container w) p = Some obj \<longrightarrow> unat (refcount obj) = holders w p)"
proof -
  from assms(1) have "counted w" by (rule reachable_counted)
  then have "tally (store (container w)) (holders w)" by (rule countedD)
  from tallyD[OF this assms(2)] show ?thesis
    by (cases "store (container w) p") simp_all
qed

theorem strong_count_equals_holders_witness:
  "reachable TestClass Inr tested_held \<and> holders tested_held 0x1000 = 2 \<and>
   map_option (\<lambda>obj. unat (refcount obj)) (store (container tested_held) 0x1000) = Some (holders tested_held 0x1000)"
proof -
  have l: "store (container tested_held) 0x1000 = Some \<lparr>refcount = 2, instance_T = (3, 0)\<rparr>"
    by (simp add: tested_held_def)
  have g: "getPointer 0x1000 = 0x1000"
    by (rule getPointer_low) (simp add: lowHalfAddress_def)
  have h: "holders tested_held 0x1000 = 2"
    by (simp add: holders_def tested_held_def tested_def g)
  from strong_count_equals_holders[OF tested_held_reachable, of "0x1000"] l h
  show ?thesis using tested_held_reachable by simp
qed

text \<open>
  \<^bold>\<open>C10.\<close> Copy-constructing from the source a move has left behind dereferences a
  null pointer, whatever the handle and the state: the copy constructor increments the
  count through the copied pointer without the test that the move constructor, the
  destructor and both assignments make.
\<close>

theorem copy_of_moved_from_handle:
  "CopyOnWriteStateReference_copy (snd (CopyOnWriteStateReference_move h)) s = Inl NullDereference"
  by (simp add: CopyOnWriteStateReference_copy_def CopyOnWriteStateReference_move_def Let_def)

end
